theory Spec2Isabelle
  imports Main
begin

section \<open>Futures and watchers of \<open>wemd.work_managers\<close>\<close>

text \<open>
  The module \<open>src/wemd/work_managers/__init__.py\<close> defines three classes:
  \<open>WMFuture\<close> (a result container), \<open>FutureWatcher\<close> (a threshold-triggered
  aggregator) and \<open>WEMDWorkManager\<close> (the waiting idioms \<open>as_completed\<close>,
  \<open>wait_any\<close>, \<open>wait_all\<close>).

  Objects are shared and mutated in place, so the embedding keeps an explicit store:
  a future or a watcher is an identity (a number), and the store maps each identity to
  the object's fields. Every method takes the store and returns the new one. A method
  that can raise returns a sum, \<open>Inl\<close> carrying what was raised. A method that can
  block takes the schedule of what the other threads do while it is suspended, and
  returns \<open>None\<close> when the schedule ends before anything wakes it.
\<close>

subsection \<open>Python values\<close>

type_synonym fid = nat
type_synonym wid = nat
type_synonym cid = nat

datatype pyval = PyNone | PyInt int | PyStr string

text \<open>
  An exception instance. \<open>is_Exception\<close> tells whether its class derives from
  \<open>Exception\<close>, the class the two handlers \<open>except Exception:\<close> name
  (\<open>KeyboardInterrupt\<close> and \<open>SystemExit\<close> do not). \<open>truthy\<close> is the truth value
  of the instance, which \<open>if self._exception:\<close> tests: an instance is true unless its
  class says otherwise (a \<open>__nonzero__\<close> that returns false, a \<open>__len__\<close> that
  returns 0).
\<close>

datatype pyexc = PyExc (is_Exception: bool) (truthy: bool) (exc_name: string)

datatype err = UserExc pyexc | AssertionError | AttributeError | KeyError

text \<open>
  A callback is an opaque callable: calling it is observable (it is recorded in the
  store's trace), and it either returns or raises. It does not touch the futures and
  watchers itself.
\<close>

datatype outcome = Returns | Raises pyexc

datatype callback = Callback (cb_id: cid) (cb_outcome: outcome)

datatype effect = is_Called: Called cid fid | Logged pyexc

subsection \<open>The store\<close>

text \<open>
  \<open>condition\<close> is the hold count of the re-entrant lock under \<open>_condition\<close>.
  \<open>fut_returned\<close> is the attribute \<open>_returned\<close>: \<open>None\<close> while the object has
  no such attribute. \<open>fut_watchers\<close> is the set \<open>_watchers\<close>, kept as a list:
  the set is the set of the list's elements, and a loop over the set visits each of them
  once (\<open>remdups\<close>; Python leaves the order open).
\<close>

record WMFuture =
  task_id :: string
  condition :: nat
  fut_done :: bool
  fut_result :: pyval
  fut_exception :: "pyexc option"
  fut_watchers :: "wid list"
  update_callbacks :: "callback list"
  fut_returned :: "bool option"

record FutureWatcher =
  event :: bool
  threshold :: int
  completed :: "fid list"

record store =
  futs :: "fid \<Rightarrow> WMFuture"
  wats :: "wid \<Rightarrow> FutureWatcher"
  trace :: "effect list"

definition upd_fut :: "fid \<Rightarrow> (WMFuture \<Rightarrow> WMFuture) \<Rightarrow> store \<Rightarrow> store" where
  "upd_fut f h st = st\<lparr>futs := (futs st)(f := h (futs st f))\<rparr>"

definition upd_wat :: "wid \<Rightarrow> (FutureWatcher \<Rightarrow> FutureWatcher) \<Rightarrow> store \<Rightarrow> store" where
  "upd_wat w h st = st\<lparr>wats := (wats st)(w := h (wats st w))\<rparr>"

text \<open>\<open>WMFuture.__init__\<close>: \<open>task_id or uuid.uuid4()\<close> takes the fresh identifier when
  the argument is \<open>None\<close> or empty.\<close>

definition WMFuture_init :: "string option \<Rightarrow> string \<Rightarrow> WMFuture" where
  "WMFuture_init tid uuid4 =
     \<lparr>task_id = (case tid of None \<Rightarrow> uuid4 | Some t \<Rightarrow> if t = [] then uuid4 else t),
      condition = 0,
      fut_done = False,
      fut_result = PyNone,
      fut_exception = None,
      fut_watchers = [],
      update_callbacks = [],
      fut_returned = None\<rparr>"

subsection \<open>The guard\<close>

definition acquire :: "fid \<Rightarrow> store \<Rightarrow> store" where
  "acquire f = upd_fut f (\<lambda>r. r\<lparr>condition := Suc (condition r)\<rparr>)"

definition release :: "fid \<Rightarrow> store \<Rightarrow> store" where
  "release f = upd_fut f (\<lambda>r. r\<lparr>condition := condition r - 1\<rparr>)"

text \<open>\<open>with self._condition:\<close> releases the lock on every way out of the block,
  also when the block raises: the result of the body, error or not, is passed on.\<close>

definition with_condition :: "fid \<Rightarrow> (store \<Rightarrow> 'a \<times> store) \<Rightarrow> store \<Rightarrow> 'a \<times> store" where
  "with_condition f body st = (case body (acquire f st) of (r, st') \<Rightarrow> (r, release f st'))"

subsection \<open>FutureWatcher\<close>

text \<open>\<open>signal\<close> on the watcher's own fields, then on the watcher in the store.\<close>

definition signalled :: "fid \<Rightarrow> FutureWatcher \<Rightarrow> FutureWatcher" where
  "signalled f wt =
     (let wt' = wt\<lparr>completed := completed wt @ [f]\<rparr>
      in if threshold wt' \<le> int (length (completed wt')) then wt'\<lparr>event := True\<rparr> else wt')"

definition signal :: "wid \<Rightarrow> fid \<Rightarrow> store \<Rightarrow> store" where
  "signal w f = upd_wat w (signalled f)"

definition reset :: "wid \<Rightarrow> store \<Rightarrow> fid list \<times> store" where
  "reset w st =
     (completed (wats st w), upd_wat w (\<lambda>wt. wt\<lparr>event := False, completed := []\<rparr>) st)"

subsection \<open>WMFuture\<close>

definition notify_watchers :: "fid \<Rightarrow> store \<Rightarrow> (err + unit) \<times> store" where
  "notify_watchers f =
     with_condition f (\<lambda>s.
       if fut_done (futs s f)
       then (Inr (),
             upd_fut f (\<lambda>r. r\<lparr>fut_watchers := []\<rparr>)
               (fold (\<lambda>w. signal w f) (remdups (fut_watchers (futs s f))) s))
       else (Inl AssertionError, s))"

text \<open>One pass of the \<open>try: callback(self) except Exception: log.exception(...)\<close>
  block: the result is the exception that escapes the block, if any.\<close>

definition add_trace :: "effect list \<Rightarrow> store \<Rightarrow> store" where
  "add_trace es st = st\<lparr>trace := trace st @ es\<rparr>"

definition try_callback :: "callback \<Rightarrow> fid \<Rightarrow> store \<Rightarrow> pyexc option \<times> store" where
  "try_callback c f st =
     (let s = add_trace [Called (cb_id c) f] st
      in case cb_outcome c of
           Returns \<Rightarrow> (None, s)
         | Raises e \<Rightarrow>
             if is_Exception e then (None, add_trace [Logged e] s)
             else (Some e, s))"

fun for_callbacks :: "fid \<Rightarrow> callback list \<Rightarrow> store \<Rightarrow> pyexc option \<times> store" where
  "for_callbacks f [] st = (None, st)"
| "for_callbacks f (c # cs) st =
     (case try_callback c f st of
        (None, s) \<Rightarrow> for_callbacks f cs s
      | (Some e, s) \<Rightarrow> (Some e, s))"

definition invoke_callbacks :: "fid \<Rightarrow> store \<Rightarrow> (err + unit) \<times> store" where
  "invoke_callbacks f =
     with_condition f (\<lambda>s.
       case for_callbacks f (update_callbacks (futs s f)) s of
         (None, s') \<Rightarrow> (Inr (), upd_fut f (\<lambda>r. r\<lparr>update_callbacks := []\<rparr>) s')
       | (Some e, s') \<Rightarrow> (Inl (UserExc e), s'))"

definition add_watcher :: "fid \<Rightarrow> wid \<Rightarrow> store \<Rightarrow> unit \<times> store" where
  "add_watcher f w =
     with_condition f (\<lambda>s.
       if fut_done (futs s f) then ((), signal w f s)
       else ((), upd_fut f (\<lambda>r. r\<lparr>fut_watchers := List.insert w (fut_watchers r)\<rparr>) s))"

definition add_callback :: "fid \<Rightarrow> callback \<Rightarrow> store \<Rightarrow> (err + unit) \<times> store" where
  "add_callback f c =
     with_condition f (\<lambda>s.
       if fut_done (futs s f)
       then (case try_callback c f s of
               (None, s') \<Rightarrow> (Inr (), s')
             | (Some e, s') \<Rightarrow> (Inl (UserExc e), s'))
       else (Inr (), upd_fut f (\<lambda>r. r\<lparr>update_callbacks := update_callbacks r @ [c]\<rparr>) s))"

text \<open>The tail shared by \<open>_set_result\<close> and \<open>_set_exception\<close>:
  \<open>notify_all\<close> changes no field; a callback's exception that escapes
  \<open>_invoke_callbacks\<close> skips \<open>_notify_watchers\<close>.\<close>

definition completion :: "fid \<Rightarrow> store \<Rightarrow> (err + unit) \<times> store" where
  "completion f s =
     (case invoke_callbacks f s of
        (Inl e, s') \<Rightarrow> (Inl e, s')
      | (Inr _, s') \<Rightarrow> notify_watchers f s')"

definition set_result :: "fid \<Rightarrow> pyval \<Rightarrow> store \<Rightarrow> (err + unit) \<times> store" where
  "set_result f v =
     with_condition f (\<lambda>s.
       completion f (upd_fut f (\<lambda>r. r\<lparr>fut_done := True\<rparr>)
                      (upd_fut f (\<lambda>r. r\<lparr>fut_result := v\<rparr>) s)))"

definition set_exception :: "fid \<Rightarrow> pyexc \<Rightarrow> store \<Rightarrow> (err + unit) \<times> store" where
  "set_exception f e =
     with_condition f (\<lambda>s.
       completion f (upd_fut f (\<lambda>r. r\<lparr>fut_done := True\<rparr>)
                      (upd_fut f (\<lambda>r. r\<lparr>fut_exception := Some e\<rparr>) s)))"

definition is_done :: "fid \<Rightarrow> store \<Rightarrow> bool \<times> store" where
  "is_done f = with_condition f (\<lambda>s. (fut_done (futs s f), s))"

text \<open>The two branches of \<open>get_result\<close> end the same way: \<open>if self._exception:\<close>
  is false for \<open>None\<close> and for an instance that is not truthy.\<close>

definition resolve :: "WMFuture \<Rightarrow> err + pyval" where
  "resolve r =
     (case fut_exception r of
        None \<Rightarrow> Inr (fut_result r)
      | Some e \<Rightarrow> if truthy e then Inl (UserExc e) else Inr (fut_result r))"

subsection \<open>What the other threads do\<close>

text \<open>
  The calls that return without waiting. \<open>Construct\<close> runs \<open>__init__\<close> on the
  object; the others are the methods above and \<open>FutureWatcher.reset\<close>. What a call
  returns or raises goes to its own caller: the store keeps what the call did before.
\<close>

datatype op =
    Construct fid "string option" string
  | SetResult fid pyval
  | SetException fid pyexc
  | AddWatcher fid wid
  | AddCallback fid callback
  | IsDone fid
  | Reset wid

fun step :: "op \<Rightarrow> store \<Rightarrow> store" where
  "step (Construct f tid uuid4) st = upd_fut f (\<lambda>_. WMFuture_init tid uuid4) st"
| "step (SetResult f v) st = snd (set_result f v st)"
| "step (SetException f e) st = snd (set_exception f e st)"
| "step (AddWatcher f w) st = snd (add_watcher f w st)"
| "step (AddCallback f c) st = snd (add_callback f c st)"
| "step (IsDone f) st = snd (is_done f st)"
| "step (Reset w) st = snd (reset w st)"

definition run :: "op list \<Rightarrow> store \<Rightarrow> store" where
  "run xs st = fold step xs st"

text \<open>\<open>notify_all\<close> on the condition of \<open>f\<close> is called by \<open>_set_result\<close> and
  \<open>_set_exception\<close> of \<open>f\<close>, and by nothing else.\<close>

fun notifies :: "fid \<Rightarrow> op \<Rightarrow> bool" where
  "notifies f (SetResult g v) = (g = f)"
| "notifies f (SetException g e) = (g = f)"
| "notifies f _ = False"

subsection \<open>Blocking reads\<close>

text \<open>
  \<open>self._condition.wait()\<close>: the thread gives the lock up entirely, sleeps while the
  others run, wakes at the first \<open>notify_all\<close> on this condition, after the notifying
  call has left the lock, and takes the lock back at the depth it had. A schedule that
  ends without such a call leaves the thread asleep: the result is \<open>None\<close>.
\<close>

fun await_notify :: "fid \<Rightarrow> op list \<Rightarrow> store \<Rightarrow> (op list \<times> store) option" where
  "await_notify f [] st = None"
| "await_notify f (x # xs) st =
     (if notifies f x then Some (xs, step x st) else await_notify f xs (step x st))"

definition condition_wait :: "fid \<Rightarrow> op list \<Rightarrow> store \<Rightarrow> (op list \<times> store) option" where
  "condition_wait f sched st =
     (let depth = condition (futs st f)
      in case await_notify f sched (upd_fut f (\<lambda>r. r\<lparr>condition := 0\<rparr>) st) of
           None \<Rightarrow> None
         | Some (sched', st') \<Rightarrow> Some (sched', upd_fut f (\<lambda>r. r\<lparr>condition := depth\<rparr>) st'))"

text \<open>
  \<open>get_result\<close> and \<open>get_exception\<close>: the \<open>with self._condition:\<close> block is
  written out as \<open>acquire\<close> and \<open>release\<close>, since the block can also fail to return.
  The \<open>assert\<close> statements raise \<open>AssertionError\<close>; reading the attribute
  \<open>_returned\<close> of an object that has none raises \<open>AttributeError\<close>.
\<close>

definition get_result ::
  "fid \<Rightarrow> op list \<Rightarrow> store \<Rightarrow> ((err + pyval) \<times> op list \<times> store) option" where
  "get_result f sched st =
     (let s = acquire f st
      in if fut_done (futs s f) then Some (resolve (futs s f), sched, release f s)
         else case condition_wait f sched s of
                None \<Rightarrow> None
              | Some (sched', s') \<Rightarrow>
                  if fut_done (futs s' f) then Some (resolve (futs s' f), sched', release f s')
                  else Some (Inl AssertionError, sched', release f s'))"

definition get_exception ::
  "fid \<Rightarrow> op list \<Rightarrow> store \<Rightarrow> ((err + pyexc option) \<times> op list \<times> store) option" where
  "get_exception f sched st =
     (let s = acquire f st
      in case fut_returned (futs s f) of
           None \<Rightarrow> Some (Inl AttributeError, sched, release f s)
         | Some True \<Rightarrow> Some (Inr (fut_exception (futs s f)), sched, release f s)
         | Some False \<Rightarrow>
             if fut_done (futs s f)
             then (case condition_wait f sched s of
                     None \<Rightarrow> None
                   | Some (sched', s') \<Rightarrow>
                       Some (Inr (fut_exception (futs s' f)), sched', release f s'))
             else Some (Inl AssertionError, sched, release f s))"

subsection \<open>Sequences of calls on futures\<close>

text \<open>
  A caller's sequence of calls: the calls that do not wait, and \<open>get_result\<close> with
  what the other threads do while it waits. A call that never returns ends the sequence
  (\<open>None\<close>).
\<close>

datatype call = Call op | GetResult fid "op list"

fun exec :: "call \<Rightarrow> store \<Rightarrow> store option" where
  "exec (Call x) st = Some (step x st)"
| "exec (GetResult f sched) st =
     (case get_result f sched st of None \<Rightarrow> None | Some (r, sched', st') \<Rightarrow> Some st')"

fun exec_all :: "call list \<Rightarrow> store \<Rightarrow> store option" where
  "exec_all [] st = Some st"
| "exec_all (c # cs) st = (case exec c st of None \<Rightarrow> None | Some st' \<Rightarrow> exec_all cs st')"

subsection \<open>The acquisition scope\<close>

text \<open>
  \<open>all_acquired\<close> is a generator under \<open>@contextmanager\<close>: the code before the
  \<open>yield\<close> runs on entry, the code after it on a normal exit. When the block raises,
  the exception is thrown into the generator at the \<open>yield\<close>; the generator has no
  \<open>try\<close> around it, so the exception leaves the generator there, the release loop
  does not run, and the \<open>with\<close> statement raises the exception again.
\<close>

definition all_acquired ::
  "fid list \<Rightarrow> (store \<Rightarrow> (err + 'a) \<times> store) \<Rightarrow> store \<Rightarrow> (err + 'a) \<times> store" where
  "all_acquired futures body st =
     (case body (fold acquire futures st) of
        (Inl e, st') \<Rightarrow> (Inl e, st')
      | (Inr r, st') \<Rightarrow> (Inr r, fold release futures st'))"

subsection \<open>Constructing a watcher\<close>

definition FutureWatcher_init :: "wid \<Rightarrow> fid list \<Rightarrow> int \<Rightarrow> store \<Rightarrow> store" where
  "FutureWatcher_init w futures t st =
     fold (\<lambda>f s. snd (add_watcher f w s)) futures
       (upd_wat w (\<lambda>_. \<lparr>event = False, threshold = t, completed = []\<rparr>) st)"

subsection \<open>WEMDWorkManager\<close>

text \<open>\<open>wait_all\<close>: \<open>future.result\<close> is the property over \<open>get_result\<close>; an
  exception it raises leaves the loop. (\<open>wait_any\<close>, \<open>startup\<close> and \<open>shutdown\<close>
  are not needed below and are left out.)\<close>

fun wait_all_from ::
  "fid list \<Rightarrow> pyval list \<Rightarrow> op list \<Rightarrow> store \<Rightarrow> ((err + pyval list) \<times> op list \<times> store) option" where
  "wait_all_from [] results sched st = Some (Inr results, sched, st)"
| "wait_all_from (f # fs) results sched st =
     (case get_result f sched st of
        None \<Rightarrow> None
      | Some (Inl e, sched', st') \<Rightarrow> Some (Inl e, sched', st')
      | Some (Inr v, sched', st') \<Rightarrow> wait_all_from fs (results @ [v]) sched' st')"

definition wait_all ::
  "fid list \<Rightarrow> op list \<Rightarrow> store \<Rightarrow> ((err + pyval list) \<times> op list \<times> store) option" where
  "wait_all futures = wait_all_from futures []"

text \<open>
  \<open>as_completed\<close> is a generator. What its consumer sees is the sequence of the
  futures it yields; \<open>Waited\<close> marks each call of \<open>watcher.wait()\<close> in between. The
  generator ends by running off its end, by raising, or never: asleep in
  \<open>watcher.wait()\<close> with nobody left to set the event.

  The other threads run while the generator is suspended: at a \<open>yield\<close>, until the
  consumer asks for the next item, and in \<open>watcher.wait()\<close>, until the event is set.
  The schedule is a list of bursts: a \<open>yield\<close> takes one burst (none when the
  schedule is used up), a wait takes bursts until it finds the event set.
\<close>

datatype gen_event = Yielded fid | Waited

datatype ending = Exhausted | Asleep | Raised err

fun suspend :: "op list list \<Rightarrow> store \<Rightarrow> op list list \<times> store" where
  "suspend [] st = ([], st)"
| "suspend (b # bs) st = (bs, run b st)"

text \<open>\<open>event.wait()\<close>.\<close>

fun event_wait :: "wid \<Rightarrow> op list list \<Rightarrow> store \<Rightarrow> (op list list \<times> store) option" where
  "event_wait w [] st = (if event (wats st w) then Some ([], st) else None)"
| "event_wait w (b # bs) st =
     (if event (wats st w) then Some (b # bs, st) else event_wait w bs (run b st))"

text \<open>\<open>{future for future in futures if future.done}\<close>, before it is made a set.\<close>

fun done_members :: "fid list \<Rightarrow> store \<Rightarrow> fid list \<times> store" where
  "done_members [] st = ([], st)"
| "done_members (f # fs) st =
     (case is_done f st of
        (d, st') \<Rightarrow>
          (case done_members fs st' of
             (ds, st'') \<Rightarrow> (if d then f # ds else ds, st'')))"

text \<open>\<open>for future in completed: yield future\<close>.\<close>

fun yield_each :: "fid list \<Rightarrow> op list list \<Rightarrow> store \<Rightarrow> op list list \<times> store" where
  "yield_each [] sched st = (sched, st)"
| "yield_each (f # fs) sched st =
     (case suspend sched st of (sched', st') \<Rightarrow> yield_each fs sched' st')"

text \<open>\<open>for future in completed: yield future; pending.remove(future)\<close>:
  \<open>set.remove\<close> raises \<open>KeyError\<close> for an element that is not in the set.\<close>

fun yield_remove ::
  "fid list \<Rightarrow> fid list \<Rightarrow> op list list \<Rightarrow> store \<Rightarrow>
     gen_event list \<times> (err + fid list) \<times> op list list \<times> store" where
  "yield_remove [] pending sched st = ([], Inr pending, sched, st)"
| "yield_remove (f # fs) pending sched st =
     (case suspend sched st of
        (sched', st') \<Rightarrow>
          if f \<in> set pending
          then (case yield_remove fs (removeAll f pending) sched' st' of
                  (evs, r, sched'', st'') \<Rightarrow> (Yielded f # evs, r, sched'', st''))
          else ([Yielded f], Inl KeyError, sched', st'))"

text \<open>The loop \<open>while pending:\<close>.\<close>

function as_completed_loop ::
  "wid \<Rightarrow> fid list \<Rightarrow> op list list \<Rightarrow> store \<Rightarrow> gen_event list \<times> ending" where
  "as_completed_loop w pending sched st =
     (if pending = [] then ([], Exhausted)
      else case event_wait w sched st of
             None \<Rightarrow> ([Waited], Asleep)
           | Some (sched1, st1) \<Rightarrow>
               (case reset w st1 of
                  (batch, st2) \<Rightarrow>
                    (case yield_remove batch pending sched1 st2 of
                       (evs, Inl e, sched3, st3) \<Rightarrow> (Waited # evs, Raised e)
                     | (evs, Inr pending', sched3, st3) \<Rightarrow>
                         (case as_completed_loop w pending' sched3 st3 of
                            (evs', fin) \<Rightarrow> (Waited # evs @ evs', fin)))))"
  by pat_completeness auto

text \<open>
  \<open>as_completed\<close>: \<open>w\<close> is the identity of the watcher the call creates. The sets
  \<open>pending\<close> and \<open>completed\<close> are lists without duplicates; the first \<open>completed\<close>
  is \<open>ready\<close> here, and each later one is a \<open>batch\<close> (\<open>completed\<close> names the
  watcher's field).
\<close>

definition as_completed ::
  "wid \<Rightarrow> fid list \<Rightarrow> op list list \<Rightarrow> store \<Rightarrow> gen_event list \<times> ending" where
  "as_completed w futures sched st =
     (let pending = remdups futures
      in case all_acquired pending
                (\<lambda>s. case done_members futures s of
                        (ds, s1) \<Rightarrow>
                          let ready = remdups ds;
                              pending' = filter (\<lambda>f. f \<notin> set ready) pending
                          in (Inr (ready, pending'), FutureWatcher_init w pending' 1 s1))
                st of
           (Inl e, st1) \<Rightarrow> ([], Raised e)
         | (Inr (ready, pending'), st1) \<Rightarrow>
             (case yield_each ready sched st1 of
                (sched1, st2) \<Rightarrow>
                  (case as_completed_loop w pending' sched1 st2 of
                     (evs, fin) \<Rightarrow> (map Yielded ready @ evs, fin))))"

section \<open>Auxiliary notions\<close>

text \<open>The store in which every object is as its constructor leaves it.\<close>

definition new_store :: store where
  "new_store =
     \<lparr>futs = (\<lambda>_. WMFuture_init None ''uuid''),
      wats = (\<lambda>_. \<lparr>event = False, threshold = 1, completed = []\<rparr>),
      trace = []\<rparr>"

text \<open>What a pass over a callback list records, and the exception that escapes it.\<close>

fun cb_effects :: "fid \<Rightarrow> callback list \<Rightarrow> effect list" where
  "cb_effects f [] = []"
| "cb_effects f (c # cs) =
     (case cb_outcome c of
        Returns \<Rightarrow> Called (cb_id c) f # cb_effects f cs
      | Raises e \<Rightarrow>
          if is_Exception e then Called (cb_id c) f # Logged e # cb_effects f cs
          else [Called (cb_id c) f])"

fun cb_escapes :: "callback list \<Rightarrow> pyexc option" where
  "cb_escapes [] = None"
| "cb_escapes (c # cs) =
     (case cb_outcome c of
        Returns \<Rightarrow> cb_escapes cs
      | Raises e \<Rightarrow> if is_Exception e then cb_escapes cs else Some e)"

text \<open>A callback whose exception, if it raises one, is an \<open>Exception\<close>.\<close>

definition contained :: "callback \<Rightarrow> bool" where
  "contained c = (case cb_outcome c of Returns \<Rightarrow> True | Raises e \<Rightarrow> is_Exception e)"

text \<open>\<open>_set_result\<close> and \<open>_set_exception\<close> without the lock: \<open>h\<close> stores the
  payload.\<close>

definition settle :: "fid \<Rightarrow> (WMFuture \<Rightarrow> WMFuture) \<Rightarrow> store \<Rightarrow> (err + unit) \<times> store" where
  "settle f h st =
     (let cbs = update_callbacks (futs st f);
          ws = remdups (fut_watchers (futs st f));
          s = add_trace (cb_effects f cbs) (upd_fut f h st)
      in case cb_escapes cbs of
           Some e \<Rightarrow> (Inl (UserExc e), s)
         | None \<Rightarrow>
             (Inr (), upd_fut f (\<lambda>r. r\<lparr>update_callbacks := [], fut_watchers := []\<rparr>)
                        (fold (\<lambda>w. signal w f) ws s)))"

text \<open>
  The payload of a future (done, result, exception), and what each call does to the
  payload of future \<open>g\<close>: it depends on the payload alone.
\<close>

type_synonym payload = "bool \<times> pyval \<times> pyexc option"

definition payload :: "WMFuture \<Rightarrow> payload" where
  "payload r = (fut_done r, fut_result r, fut_exception r)"

fun pay :: "op \<Rightarrow> fid \<Rightarrow> payload \<Rightarrow> payload" where
  "pay (Construct f tid uuid4) g p = (if g = f then (False, PyNone, None) else p)"
| "pay (SetResult f v) g p = (if g = f then (True, v, snd (snd p)) else p)"
| "pay (SetException f e) g p = (if g = f then (True, fst (snd p), Some e) else p)"
| "pay (AddWatcher f w) g p = p"
| "pay (AddCallback f c) g p = p"
| "pay (IsDone f) g p = p"
| "pay (Reset w) g p = p"

text \<open>The calls that write the payload of \<open>f\<close>.\<close>

fun touches :: "fid \<Rightarrow> op \<Rightarrow> bool" where
  "touches f (Construct g tid uuid4) = (g = f)"
| "touches f (SetResult g v) = (g = f)"
| "touches f (SetException g e) = (g = f)"
| "touches f _ = False"

text \<open>A store for examples: future 0 is pending, with a callback that raises, one that
  returns, and watcher 5 registered.\<close>

definition example_store :: store where
  "example_store =
     run [AddCallback 0 (Callback 1 (Raises (PyExc True True ''boom''))),
          AddCallback 0 (Callback 2 Returns),
          AddWatcher 0 5] new_store"

text \<open>No future of the store has the attribute \<open>_returned\<close>.\<close>

definition unassigned :: "store \<Rightarrow> bool" where
  "unassigned st = (\<forall>g. fut_returned (futs st g) = None)"

text \<open>
  The completing calls. A watcher whose event agrees with its completed list. A store in
  which every stored callback is contained. And watcher \<open>w\<close> watching the futures
  \<open>A\<close>: it is registered with those of them that are pending, and its completed list
  holds those of them that are done, each once.
\<close>

fun completes :: "op \<Rightarrow> bool" where
  "completes (SetResult f v) = True"
| "completes (SetException f e) = True"
| "completes _ = False"

definition watcher_ok :: "FutureWatcher \<Rightarrow> bool" where
  "watcher_ok wt \<longleftrightarrow>
     1 \<le> threshold wt \<and> (event wt \<longleftrightarrow> threshold wt \<le> int (length (completed wt)))"

definition all_contained :: "store \<Rightarrow> bool" where
  "all_contained st \<longleftrightarrow> (\<forall>f. \<forall>c\<in>set (update_callbacks (futs st f)). contained c)"

definition watching :: "wid \<Rightarrow> fid set \<Rightarrow> store \<Rightarrow> bool" where
  "watching w A st \<longleftrightarrow>
     (\<forall>f. w \<in> set (fut_watchers (futs st f)) \<longleftrightarrow> f \<in> A \<and> \<not> fut_done (futs st f))
   \<and> distinct (completed (wats st w))
   \<and> set (completed (wats st w)) = {f \<in> A. fut_done (futs st f)}"

text \<open>
  The future a completing call completes. A schedule of the other threads in which every
  call completes a future that is pending when the call runs: each future is completed
  at most once, as the submission contract asks.
\<close>

fun target :: "op \<Rightarrow> fid option" where
  "target (SetResult f v) = Some f"
| "target (SetException f e) = Some f"
| "target _ = None"

fun once :: "op list \<Rightarrow> store \<Rightarrow> bool" where
  "once [] st = True"
| "once (x # xs) st =
     (case target x of
        None \<Rightarrow> False
      | Some f \<Rightarrow> \<not> fut_done (futs st f) \<and> once xs (step x st))"

text \<open>
  The futures a generator has yielded. A schedule of bursts in which the other threads
  only complete futures. And what holds each time the loop of \<open>as_completed\<close> comes
  round, with \<open>P\<close> the futures still pending for the generator: its watcher watches
  \<open>P\<close>, has threshold 1 and an event that agrees with its list, and every future of
  \<open>P\<close> is done once the whole schedule has run.
\<close>

fun yielded :: "gen_event list \<Rightarrow> fid list" where
  "yielded [] = []"
| "yielded (Yielded f # evs) = f # yielded evs"
| "yielded (Waited # evs) = yielded evs"

definition calm :: "op list list \<Rightarrow> bool" where
  "calm sched \<longleftrightarrow> (\<forall>b\<in>set sched. \<forall>x\<in>set b. completes x)"

definition loop_inv :: "wid \<Rightarrow> fid list \<Rightarrow> op list list \<Rightarrow> store \<Rightarrow> bool" where
  "loop_inv w P sched st \<longleftrightarrow>
     watching w (set P) st \<and> all_contained st \<and> watcher_ok (wats st w)
   \<and> threshold (wats st w) = 1 \<and> calm sched \<and> distinct P
   \<and> (\<forall>f\<in>set P. fut_done (futs (run (concat sched) st) f))"

text \<open>A future whose stored exception passes the test \<open>if self._exception:\<close> of
  \<open>get_result\<close>.\<close>

definition raises :: "WMFuture \<Rightarrow> bool" where
  "raises r = (case fut_exception r of None \<Rightarrow> False | Some e \<Rightarrow> truthy e)"

text \<open>A store for examples: future 0 is pending, with one callback, which raises
  \<open>KeyboardInterrupt\<close>.\<close>

definition kbd_store :: store where
  "kbd_store =
     snd (add_callback 0 (Callback 1 (Raises (PyExc False True ''KeyboardInterrupt'')))
            new_store)"

text \<open>The same future with a second callback, which returns, and watcher 5, both
  registered after the first callback.\<close>

definition kbd_example :: store where
  "kbd_example = run [AddCallback 0 (Callback 2 Returns), AddWatcher 0 5] kbd_store"

section \<open>The store under each operation\<close>

lemma futs_upd_fut [simp]: "futs (upd_fut f h st) g = (if g = f then h (futs st f) else futs st g)"
  by (simp add: upd_fut_def)

lemma wats_upd_fut [simp]: "wats (upd_fut f h st) = wats st"
  by (simp add: upd_fut_def)

lemma trace_upd_fut [simp]: "trace (upd_fut f h st) = trace st"
  by (simp add: upd_fut_def)

lemma futs_upd_wat [simp]: "futs (upd_wat w h st) = futs st"
  by (simp add: upd_wat_def)

lemma wats_upd_wat [simp]: "wats (upd_wat w h st) v = (if v = w then h (wats st w) else wats st v)"
  by (simp add: upd_wat_def)

lemma trace_upd_wat [simp]: "trace (upd_wat w h st) = trace st"
  by (simp add: upd_wat_def)

lemma futs_add_trace [simp]: "futs (add_trace es st) = futs st"
  by (simp add: add_trace_def)

lemma wats_add_trace [simp]: "wats (add_trace es st) = wats st"
  by (simp add: add_trace_def)

lemma trace_add_trace [simp]: "trace (add_trace es st) = trace st @ es"
  by (simp add: add_trace_def)

lemma store_eqI: "futs a = futs b \<Longrightarrow> wats a = wats b \<Longrightarrow> trace a = trace b \<Longrightarrow> (a::store) = b"
  by simp

lemma add_trace_add_trace [simp]: "add_trace es (add_trace ds st) = add_trace (ds @ es) st"
  by (simp add: add_trace_def)

lemma add_trace_Nil [simp]: "add_trace [] st = st"
  by (simp add: add_trace_def)

lemma upd_fut_upd_fut [simp]: "upd_fut f h (upd_fut f k st) = upd_fut f (\<lambda>r. h (k r)) st"
  by (simp add: upd_fut_def)

lemma upd_fut_add_trace: "upd_fut f h (add_trace es st) = add_trace es (upd_fut f h st)"
  by (simp add: upd_fut_def add_trace_def)

lemma upd_fut_upd_wat: "upd_fut f h (upd_wat w k st) = upd_wat w k (upd_fut f h st)"
  by (simp add: upd_fut_def upd_wat_def)

lemma upd_wat_add_trace: "upd_wat w k (add_trace es st) = add_trace es (upd_wat w k st)"
  by (simp add: upd_wat_def add_trace_def)

lemma release_acquire [simp]: "release f (acquire f st) = st"
  by (simp add: release_def acquire_def upd_fut_def)

lemma for_callbacks_eq: "for_callbacks f cs st = (cb_escapes cs, add_trace (cb_effects f cs) st)"
  by (induction cs arbitrary: st) (simp_all add: try_callback_def Let_def split: outcome.splits)

lemma signals_upd_fut:
  "fold (\<lambda>w. signal w f) ws (upd_fut g h st) = upd_fut g h (fold (\<lambda>w. signal w f) ws st)"
  by (induction ws arbitrary: st) (simp_all add: signal_def upd_fut_upd_wat [symmetric])

lemma signals_add_trace:
  "fold (\<lambda>w. signal w f) ws (add_trace es st) = add_trace es (fold (\<lambda>w. signal w f) ws st)"
  by (induction ws arbitrary: st) (simp_all add: signal_def upd_wat_add_trace)

lemma futs_signals [simp]: "futs (fold (\<lambda>w. signal w f) ws st) = futs st"
  by (induction ws arbitrary: st) (simp_all add: signal_def)

lemma trace_signals [simp]: "trace (fold (\<lambda>w. signal w f) ws st) = trace st"
  by (induction ws arbitrary: st) (simp_all add: signal_def)

lemma wats_signals:
  "distinct ws \<Longrightarrow>
   wats (fold (\<lambda>w. signal w f) ws st) v =
     (if v \<in> set ws then signalled f (wats st v) else wats st v)"
  by (induction ws arbitrary: st) (auto simp: signal_def)

lemma is_done_eq [simp]: "is_done f st = (fut_done (futs st f), st)"
  by (simp add: is_done_def with_condition_def acquire_def release_def upd_fut_def)

lemma add_watcher_eq:
  "add_watcher f w st =
     ((), if fut_done (futs st f) then signal w f st
          else upd_fut f (\<lambda>r. r\<lparr>fut_watchers := List.insert w (fut_watchers r)\<rparr>) st)"
  by (simp add: add_watcher_def with_condition_def acquire_def release_def upd_fut_def signal_def
        upd_wat_def)

lemma add_callback_eq:
  "add_callback f c st =
     (if fut_done (futs st f)
      then (case cb_escapes [c] of None \<Rightarrow> Inr () | Some e \<Rightarrow> Inl (UserExc e),
            add_trace (cb_effects f [c]) st)
      else (Inr (), upd_fut f (\<lambda>r. r\<lparr>update_callbacks := update_callbacks r @ [c]\<rparr>) st))"
  by (simp add: add_callback_def with_condition_def acquire_def release_def upd_fut_def
        try_callback_def add_trace_def Let_def split: outcome.splits)

lemma notify_watchers_eq:
  "notify_watchers f st =
     (if fut_done (futs st f)
      then (Inr (), upd_fut f (\<lambda>r. r\<lparr>fut_watchers := []\<rparr>)
                      (fold (\<lambda>w. signal w f) (remdups (fut_watchers (futs st f))) st))
      else (Inl AssertionError, st))"
  by (simp add: notify_watchers_def with_condition_def acquire_def release_def signals_upd_fut)
    (simp add: upd_fut_def)

lemma invoke_callbacks_eq:
  "invoke_callbacks f st =
     (let s = add_trace (cb_effects f (update_callbacks (futs st f))) st
      in case cb_escapes (update_callbacks (futs st f)) of
           None \<Rightarrow> (Inr (), upd_fut f (\<lambda>r. r\<lparr>update_callbacks := []\<rparr>) s)
         | Some e \<Rightarrow> (Inl (UserExc e), s))"
  by (simp add: invoke_callbacks_def with_condition_def acquire_def release_def for_callbacks_eq
        upd_fut_add_trace Let_def split: option.splits)
    (simp add: upd_fut_def)

lemma completion_eq:
  "fut_done (futs s f) \<Longrightarrow>
   completion f s =
     (let cbs = update_callbacks (futs s f);
          ws = remdups (fut_watchers (futs s f));
          s1 = add_trace (cb_effects f cbs) s
      in case cb_escapes cbs of
           Some e \<Rightarrow> (Inl (UserExc e), s1)
         | None \<Rightarrow>
             (Inr (), upd_fut f (\<lambda>r. r\<lparr>update_callbacks := [], fut_watchers := []\<rparr>)
                        (fold (\<lambda>w. signal w f) ws s1)))"
  by (simp add: completion_def invoke_callbacks_eq notify_watchers_eq Let_def signals_upd_fut
        split: option.splits)

lemma set_result_eq:
  "set_result f v st = settle f (\<lambda>r. r\<lparr>fut_result := v, fut_done := True\<rparr>) st"
  by (auto simp: set_result_def with_condition_def completion_eq settle_def Let_def acquire_def
        release_def signals_upd_fut signals_add_trace fun_eq_iff
        split: option.splits intro!: store_eqI)

lemma set_exception_eq:
  "set_exception f e st = settle f (\<lambda>r. r\<lparr>fut_exception := Some e, fut_done := True\<rparr>) st"
  by (auto simp: set_exception_def with_condition_def completion_eq settle_def Let_def acquire_def
        release_def signals_upd_fut signals_add_trace fun_eq_iff
        split: option.splits intro!: store_eqI)

lemma cb_escapes_contained: "cb_escapes cs = None \<longleftrightarrow> (\<forall>c\<in>set cs. contained c)"
  by (induction cs) (auto simp: contained_def split: outcome.splits)

lemma fst_settle:
  "fst (settle f h st) =
     (case cb_escapes (update_callbacks (futs st f)) of
        None \<Rightarrow> Inr () | Some e \<Rightarrow> Inl (UserExc e))"
  by (simp add: settle_def Let_def split: option.splits)

lemma futs_settle:
  "futs (snd (settle f h st)) g =
     (if g = f
      then (if cb_escapes (update_callbacks (futs st f)) = None
            then (h (futs st f))\<lparr>update_callbacks := [], fut_watchers := []\<rparr>
            else h (futs st f))
      else futs st g)"
  by (simp add: settle_def Let_def split: option.splits)

lemma wats_settle:
  "wats (snd (settle f h st)) w =
     (if cb_escapes (update_callbacks (futs st f)) = None \<and> w \<in> set (fut_watchers (futs st f))
      then signalled f (wats st w) else wats st w)"
  by (simp add: settle_def Let_def wats_signals split: option.splits)

lemma trace_settle:
  "trace (snd (settle f h st)) = trace st @ cb_effects f (update_callbacks (futs st f))"
  by (simp add: settle_def Let_def split: option.splits)

lemma settle_returned:
  assumes "settle f h st0 = (Inr (), st)"
  shows "futs st f = (h (futs st0 f))\<lparr>update_callbacks := [], fut_watchers := []\<rparr>"
proof -
  from assms have "fst (settle f h st0) = Inr ()" and st: "st = snd (settle f h st0)" by simp_all
  then have "cb_escapes (update_callbacks (futs st0 f)) = None"
    by (simp add: fst_settle split: option.splits)
  then show ?thesis by (simp add: st futs_settle)
qed

section \<open>The loop of \<open>as_completed\<close> ends\<close>

text \<open>
  Each round of the loop either finds the event set and clears it, or uses up a burst
  of the schedule; a round that uses no burst leaves the event cleared. So twice the
  length of the schedule, plus one when the event is set, goes down with every round.
\<close>

lemma event_wait_shorter:
  "event_wait w sched st = Some (sched1, st1) \<Longrightarrow>
   (event (wats st w) \<and> sched1 = sched \<and> st1 = st) \<or> length sched1 < length sched"
proof (induction sched arbitrary: st)
  case Nil
  then show ?case by (simp split: if_splits)
next
  case (Cons b bs)
  show ?case
  proof (cases "event (wats st w)")
    case True
    with Cons.prems show ?thesis by simp
  next
    case False
    with Cons.prems have "event_wait w bs (run b st) = Some (sched1, st1)" by simp
    from Cons.IH [OF this] show ?thesis by auto
  qed
qed

lemma suspend_shorter:
  "suspend sched st = (sched', st') \<Longrightarrow>
   length sched' \<le> length sched \<and> (length sched' = length sched \<longrightarrow> st' = st)"
  by (cases sched) auto

lemma yield_remove_shorter:
  "yield_remove batch pending sched st = (evs, r, sched', st') \<Longrightarrow>
   length sched' \<le> length sched \<and> (length sched' = length sched \<longrightarrow> st' = st)"
proof (induction batch arbitrary: pending sched st evs r sched' st')
  case Nil
  then show ?case by simp
next
  case (Cons f fs)
  obtain s1 t1 where s: "suspend sched st = (s1, t1)" by (cases "suspend sched st")
  note sh = suspend_shorter [OF s]
  show ?case
  proof (cases "f \<in> set pending")
    case True
    obtain evs2 r2 s2 t2 where y: "yield_remove fs (removeAll f pending) s1 t1 = (evs2, r2, s2, t2)"
      by (metis prod_cases4)
    from Cons.prems s True y have "sched' = s2" "st' = t2" by simp_all
    with Cons.IH [OF y] sh show ?thesis by auto
  next
    case False
    with Cons.prems s have "sched' = s1" "st' = t1" by simp_all
    with sh show ?thesis by auto
  qed
qed

lemma event_reset [simp]: "event (wats (snd (reset w st)) w) = False"
  by (simp add: reset_def)

lemma loop_decreases:
  assumes ew: "event_wait w sched st = Some x"
    and x: "(sched1, st1) = x"
    and rs: "(batch, st2) = reset w st1"
    and yr: "(evs, r) = yield_remove batch pending sched1 st2"
    and r: "(r1, y) = r"
    and r1: "r1 = Inr pending'"
    and y: "(sched3, st3) = y"
  shows "((w, pending', sched3, st3), (w, pending, sched, st))
           \<in> measure (\<lambda>(w, pending, sched, st).
                 2 * length sched + (if event (wats st w) then 1 else 0))"
proof -
  from ew x have ew': "event_wait w sched st = Some (sched1, st1)" by simp
  from rs have st2: "st2 = snd (reset w st1)" by (metis snd_conv)
  from yr r r1 y have yr': "yield_remove batch pending sched1 st2 = (evs, Inr pending', sched3, st3)"
    by metis
  note a = event_wait_shorter [OF ew']
  note b = yield_remove_shorter [OF yr']
  have c: "\<not> event (wats st2 w)" by (simp add: st2)
  show ?thesis
  proof (cases "length sched3 = length sched1")
    case True
    with b have "st3 = st2" by simp
    with a c True show ?thesis by auto
  next
    case False
    with b have "length sched3 < length sched1" by simp
    with a show ?thesis by auto
  qed
qed

termination as_completed_loop
  apply (relation "measure (\<lambda>(w, pending, sched, st).
          2 * length sched + (if event (wats st w) then 1 else 0))")
   apply simp
  apply (erule (6) loop_decreases)
  done

section \<open>Completing a future twice\<close>

text \<open>
  Claim C1, as amended. \<open>_set_result\<close> and \<open>_set_exception\<close> do not look at
  \<open>_done\<close> before they store: on a future that an earlier call of either has
  completed (the call returned), a second call returns normally as well. It overwrites
  the stored result (\<open>_set_result\<close>) or the stored exception (\<open>_set_exception\<close>), and
  the future stays done. Nothing like a ProtocolMisuse error is raised.
\<close>

theorem C1_second_call_overwrites:
  assumes "set_result f v0 st0 = (Inr (), st) \<or> set_exception f e0 st0 = (Inr (), st)"
  shows "fut_done (futs st f)
       \<and> fst (set_result f v st) = Inr ()
       \<and> fut_result (futs (snd (set_result f v st)) f) = v
       \<and> fut_done (futs (snd (set_result f v st)) f)
       \<and> fst (set_exception f e st) = Inr ()
       \<and> fut_exception (futs (snd (set_exception f e st)) f) = Some e
       \<and> fut_done (futs (snd (set_exception f e st)) f)"
proof -
  from assms have d: "fut_done (futs st f) \<and> update_callbacks (futs st f) = []"
    by (auto simp: set_result_eq set_exception_eq dest!: settle_returned)
  then show ?thesis
    by (simp add: set_result_eq set_exception_eq fst_settle futs_settle)
qed

theorem C1_second_call_overwrites_witness:
  "set_result 0 (PyInt 1) new_store = (Inr (), snd (set_result 0 (PyInt 1) new_store))
   \<and> fst (set_result 0 (PyInt 2) (snd (set_result 0 (PyInt 1) new_store))) = Inr ()
   \<and> fut_result (futs (snd (set_result 0 (PyInt 2) (snd (set_result 0 (PyInt 1) new_store)))) 0)
       = PyInt 2
   \<and> fut_exception
        (futs (snd (set_exception 0 (PyExc True True ''boom'')
                     (snd (set_result 0 (PyInt 1) new_store)))) 0)
       = Some (PyExc True True ''boom'')"
proof -
  have h: "set_result 0 (PyInt 1) new_store = (Inr (), snd (set_result 0 (PyInt 1) new_store))"
    by (simp add: set_result_eq fst_settle new_store_def WMFuture_init_def prod_eq_iff)
  from C1_second_call_overwrites [of 0 "PyInt 1" new_store "snd (set_result 0 (PyInt 1) new_store)"
      "PyExc True True ''boom''" "PyInt 2" "PyExc True True ''boom''"] h
  show ?thesis by simp
qed

text \<open>The claim as it stands fails: the future is done after \<open>_set_result(1)\<close>, and
  \<open>_set_result(2)\<close> and \<open>_set_exception(boom)\<close> on it both return normally.\<close>

theorem C1_counterexample:
  "fut_done (futs (snd (set_result 0 (PyInt 1) new_store)) 0)
   \<and> fst (set_result 0 (PyInt 1) new_store) = Inr ()
   \<and> fst (set_result 0 (PyInt 2) (snd (set_result 0 (PyInt 1) new_store))) = Inr ()
   \<and> fst (set_exception 0 (PyExc True True ''boom'') (snd (set_result 0 (PyInt 1) new_store)))
       = Inr ()"
  by (simp add: set_result_eq set_exception_eq fst_settle futs_settle new_store_def
        WMFuture_init_def)

section \<open>Payloads, and calls that commute with the lock\<close>

lemma futs_signal [simp]: "futs (signal w f st) = futs st"
  by (simp add: signal_def)

lemma trace_signal [simp]: "trace (signal w f st) = trace st"
  by (simp add: signal_def)

lemma wats_signal: "wats (signal w f st) v = (if v = w then signalled f (wats st w) else wats st v)"
  by (simp add: signal_def)

lemma signal_upd_fut: "signal w f (upd_fut g h st) = upd_fut g h (signal w f st)"
  by (simp add: signal_def upd_fut_upd_wat)

lemma futs_reset [simp]: "futs (snd (reset w st)) = futs st"
  by (simp add: reset_def)

lemma run_append [simp]: "run (xs @ ys) st = run ys (run xs st)"
  by (simp add: run_def)

lemma run_Cons [simp]: "run (x # xs) st = run xs (step x st)"
  by (simp add: run_def)

lemma run_Nil [simp]: "run [] st = st"
  by (simp add: run_def)

lemma payload_step: "payload (futs (step x st) g) = pay x g (payload (futs st g))"
  by (cases x)
    (simp_all add: payload_def set_result_eq set_exception_eq futs_settle add_watcher_eq
      add_callback_eq reset_def WMFuture_init_def)

lemma payload_run: "payload (futs (run xs st) g) = fold (\<lambda>x. pay x g) xs (payload (futs st g))"
  by (induction xs arbitrary: st) (simp_all add: payload_step)

lemma pay_untouched: "\<not> touches f x \<Longrightarrow> pay x f p = p"
  by (cases x) simp_all

lemma pays_untouched: "\<forall>x\<in>set xs. \<not> touches f x \<Longrightarrow> fold (\<lambda>x. pay x f) xs p = p"
  by (induction xs) (simp_all add: pay_untouched)

lemma notifies_touches: "notifies f x \<Longrightarrow> touches f x"
  by (cases x) simp_all

lemma fut_done_payload: "fut_done r = fst (payload r)"
  by (simp add: payload_def)

lemma resolve_payload:
  "resolve r =
     (case snd (snd (payload r)) of
        None \<Rightarrow> Inr (fst (snd (payload r)))
      | Some e \<Rightarrow> if truthy e then Inl (UserExc e) else Inr (fst (snd (payload r))))"
  by (simp add: resolve_def payload_def split: option.splits)

lemma payload_acquire [simp]: "payload (futs (acquire f st) g) = payload (futs st g)"
  by (simp add: acquire_def payload_def)

lemma payload_condition_update [simp]: "payload (condition_update k r) = payload r"
  by (simp add: payload_def)

lemma condition_acquire: "condition (futs (acquire f st) f) = Suc (condition (futs st f))"
  by (simp add: acquire_def)

lemma acquire_alt: "acquire f = upd_fut f (condition_update Suc)"
  by (simp add: acquire_def fun_eq_iff upd_fut_def)

lemma release_alt: "release f = upd_fut f (condition_update (\<lambda>n. n - 1))"
  by (simp add: release_def fun_eq_iff upd_fut_def)

lemma upd_fut_same: "h (futs st f) = futs st f \<Longrightarrow> upd_fut f h st = st"
  by (simp add: upd_fut_def)

lemma upd_fut_commute:
  "(\<And>r. h (k r) = k (h r)) \<Longrightarrow> upd_fut f h (upd_fut g k st) = upd_fut g k (upd_fut f h st)"
  by (auto simp: upd_fut_def fun_eq_iff)

lemma settle_upd_condition:
  assumes "\<And>r. h (condition_update k r) = condition_update k (h r)"
  shows "settle f h (upd_fut g (condition_update k) st) =
           (fst (settle f h st), upd_fut g (condition_update k) (snd (settle f h st)))"
proof -
  have a: "upd_fut f h (upd_fut g (condition_update k) st)
             = upd_fut g (condition_update k) (upd_fut f h st)"
    by (rule upd_fut_commute) (simp add: assms)
  have b: "upd_fut f (\<lambda>r. r\<lparr>update_callbacks := [], fut_watchers := []\<rparr>)
             (upd_fut g (condition_update k) s)
             = upd_fut g (condition_update k)
                 (upd_fut f (\<lambda>r. r\<lparr>update_callbacks := [], fut_watchers := []\<rparr>) s)" for s
    by (rule upd_fut_commute) simp
  have c: "update_callbacks (futs (upd_fut g (condition_update k) st) f) = update_callbacks (futs st f)"
    "fut_watchers (futs (upd_fut g (condition_update k) st) f) = fut_watchers (futs st f)"
    by simp_all
  show ?thesis
    unfolding settle_def Let_def c a
    by (simp add: upd_fut_add_trace [symmetric] signals_upd_fut b split: option.splits)
qed

lemma step_upd_condition:
  assumes "\<not> (\<exists>t u. x = Construct f t u)"
  shows "step x (upd_fut f (condition_update k) st) = upd_fut f (condition_update k) (step x st)"
proof (cases x)
  case (Construct g t u)
  with assms have "g \<noteq> f" by simp
  then show ?thesis by (simp add: Construct upd_fut_def fun_upd_twist)
next
  case (SetResult g v)
  show ?thesis by (simp add: SetResult set_result_eq settle_upd_condition)
next
  case (SetException g e)
  show ?thesis by (simp add: SetException set_exception_eq settle_upd_condition)
next
  case (AddWatcher g w)
  show ?thesis
    by (simp add: AddWatcher add_watcher_eq signal_upd_fut upd_fut_commute)
next
  case (AddCallback g c)
  show ?thesis
    by (simp add: AddCallback add_callback_eq upd_fut_add_trace upd_fut_commute)
next
  case (IsDone g)
  show ?thesis by (simp add: IsDone)
next
  case (Reset w)
  show ?thesis by (simp add: Reset reset_def upd_fut_upd_wat)
qed

lemma run_upd_condition:
  "\<forall>x\<in>set xs. \<not> touches f x \<Longrightarrow>
   run xs (upd_fut f (condition_update k) st) = upd_fut f (condition_update k) (run xs st)"
proof (induction xs arbitrary: st)
  case Nil
  show ?case by simp
next
  case (Cons x xs)
  from Cons.prems have "\<not> (\<exists>t u. x = Construct f t u)" by auto
  with Cons show ?case by (simp add: step_upd_condition)
qed

section \<open>Reading a result\<close>

lemma await_notify_none: "\<forall>x\<in>set pre. \<not> notifies f x \<Longrightarrow> await_notify f pre st = None"
  by (induction pre arbitrary: st) simp_all

lemma await_notify_some:
  "\<forall>x\<in>set pre. \<not> notifies f x \<Longrightarrow> notifies f x \<Longrightarrow>
   await_notify f (pre @ x # post) st = Some (post, step x (run pre st))"
  by (induction pre arbitrary: st) simp_all

lemma get_result_done:
  "fut_done (futs st f) \<Longrightarrow> get_result f sched st = Some (resolve (futs st f), sched, st)"
  by (simp add: get_result_def Let_def fut_done_payload resolve_payload split: option.splits)

lemma get_result_asleep:
  assumes "\<not> fut_done (futs st f)" "\<forall>x\<in>set pre. \<not> notifies f x"
  shows "get_result f pre st = None"
  using assms
  by (simp add: get_result_def Let_def fut_done_payload condition_wait_def await_notify_none)

lemma get_result_woken:
  assumes p: "\<not> fut_done (futs st f)" and pre: "\<forall>x\<in>set pre. \<not> touches f x"
    and x: "notifies f x"
  shows "get_result f (pre @ x # post) st =
           Some (resolve (futs (step x (run pre st)) f), post, step x (run pre st))"
proof -
  let ?c = "condition (futs st f)"
  let ?s0 = "upd_fut f (condition_update (\<lambda>_. 0)) (acquire f st)"
  from pre have pre': "\<forall>x\<in>set pre. \<not> notifies f x" by (auto dest: notifies_touches)
  from x have nc: "\<not> (\<exists>t u. x = Construct f t u)" by (cases x) auto
  have aw: "await_notify f (pre @ x # post) ?s0 = Some (post, step x (run pre ?s0))"
    by (rule await_notify_some [OF pre' x])
  have comm: "step x (run pre (upd_fut f (condition_update k) s))
                = upd_fut f (condition_update k) (step x (run pre s))" for k s
    by (simp add: run_upd_condition [OF pre] step_upd_condition [OF nc])
  have restored: "release f (upd_fut f (condition_update (\<lambda>_. Suc ?c)) (step x (run pre ?s0)))
                = step x (run pre st)"
    by (simp add: acquire_alt release_alt comm [symmetric] upd_fut_same)
  have dn: "fut_done (futs (step x (run pre s)) f)" for s
    using x payload_step [of x "run pre s" f] by (cases x) (simp_all add: fut_done_payload)
  have pl: "payload (futs (upd_fut f (condition_update k) (step x (run pre ?s0))) f)
              = payload (futs (step x (run pre st)) f)" for k
    by (simp add: payload_step payload_run)
  show ?thesis
    using p aw restored dn [of ?s0] pl [of "\<lambda>_. Suc ?c"]
    by (simp add: get_result_def Let_def condition_wait_def fut_done_payload resolve_payload
        condition_acquire split: option.splits)
qed

text \<open>
  What \<open>get_result\<close> gives. Let \<open>F\<close> be pending, with no exception stored. After
  \<open>_set_result(v)\<close>, \<open>get_result\<close> returns \<open>v\<close>; after \<open>_set_exception(e)\<close> it
  raises \<open>e\<close> when \<open>e\<close> is truthy, and returns the stored result when \<open>e\<close> is not;
  all at once, leaving the schedule and the store as they are. Called while \<open>F\<close> is
  pending, \<open>get_result\<close> sleeps as long as the other threads do not complete \<open>F\<close>
  (\<open>None\<close> when they never do), wakes at the first \<open>_set_result(v)\<close> or
  \<open>_set_exception(e)\<close> on \<open>F\<close>, and then resolves in the same way; the store is the
  one the other threads left.
\<close>

lemma get_result_gives:
  assumes "\<not> fut_done (futs st f)" and "fut_exception (futs st f) = None"
  shows "get_result f sched (snd (set_result f v st))
           = Some (Inr v, sched, snd (set_result f v st))
       \<and> (truthy e \<longrightarrow>
            get_result f sched (snd (set_exception f e st))
              = Some (Inl (UserExc e), sched, snd (set_exception f e st)))
       \<and> (\<not> truthy e \<longrightarrow>
            get_result f sched (snd (set_exception f e st))
              = Some (Inr (fut_result (futs st f)), sched, snd (set_exception f e st)))
       \<and> (\<forall>pre post. (\<forall>x\<in>set pre. \<not> touches f x) \<longrightarrow>
             get_result f pre st = None
           \<and> get_result f (pre @ SetResult f v # post) st
               = Some (Inr v, post, step (SetResult f v) (run pre st))
           \<and> (truthy e \<longrightarrow>
                get_result f (pre @ SetException f e # post) st
                  = Some (Inl (UserExc e), post, step (SetException f e) (run pre st)))
           \<and> (\<not> truthy e \<longrightarrow>
                get_result f (pre @ SetException f e # post) st
                  = Some (Inr (fut_result (futs st f)), post,
                          step (SetException f e) (run pre st))))"
proof (intro conjI allI impI)
  show "get_result f sched (snd (set_result f v st))
          = Some (Inr v, sched, snd (set_result f v st))"
    using assms
    by (simp add: get_result_done set_result_eq futs_settle resolve_def)
next
  assume "truthy e"
  then show "get_result f sched (snd (set_exception f e st))
          = Some (Inl (UserExc e), sched, snd (set_exception f e st))"
    by (simp add: get_result_done set_exception_eq futs_settle resolve_def)
next
  assume "\<not> truthy e"
  then show "get_result f sched (snd (set_exception f e st))
          = Some (Inr (fut_result (futs st f)), sched, snd (set_exception f e st))"
    by (simp add: get_result_done set_exception_eq futs_settle resolve_def)
next
  fix pre post
  assume pre: "\<forall>x\<in>set pre. \<not> touches f x"
  from pre show "get_result f pre st = None"
    by (intro get_result_asleep assms) (auto dest: notifies_touches)
next
  fix pre post
  assume pre: "\<forall>x\<in>set pre. \<not> touches f x"
  from assms have p0: "payload (futs st f) = (False, fut_result (futs st f), None)"
    by (simp add: payload_def)
  have pl: "payload (futs (run pre st) f) = (False, fut_result (futs st f), None)"
    by (simp add: payload_run pays_untouched [OF pre] p0)
  have "resolve (futs (step (SetResult f v) (run pre st)) f) = Inr v"
    by (simp only: resolve_payload payload_step pl) simp
  then show "get_result f (pre @ SetResult f v # post) st
               = Some (Inr v, post, step (SetResult f v) (run pre st))"
    using get_result_woken [OF assms(1) pre, of "SetResult f v" post] by simp
next
  fix pre post
  assume pre: "\<forall>x\<in>set pre. \<not> touches f x" and e: "truthy e"
  from assms have p0: "payload (futs st f) = (False, fut_result (futs st f), None)"
    by (simp add: payload_def)
  have pl: "payload (futs (run pre st) f) = (False, fut_result (futs st f), None)"
    by (simp add: payload_run pays_untouched [OF pre] p0)
  have "resolve (futs (step (SetException f e) (run pre st)) f) = Inl (UserExc e)"
    by (simp only: resolve_payload payload_step pl) (simp add: e)
  then show "get_result f (pre @ SetException f e # post) st
               = Some (Inl (UserExc e), post, step (SetException f e) (run pre st))"
    using get_result_woken [OF assms(1) pre, of "SetException f e" post] by simp
next
  fix pre post
  assume pre: "\<forall>x\<in>set pre. \<not> touches f x" and e: "\<not> truthy e"
  from assms have p0: "payload (futs st f) = (False, fut_result (futs st f), None)"
    by (simp add: payload_def)
  have pl: "payload (futs (run pre st) f) = (False, fut_result (futs st f), None)"
    by (simp add: payload_run pays_untouched [OF pre] p0)
  have "resolve (futs (step (SetException f e) (run pre st)) f) = Inr (fut_result (futs st f))"
    by (simp only: resolve_payload payload_step pl) (simp add: e)
  then show "get_result f (pre @ SetException f e # post) st
               = Some (Inr (fut_result (futs st f)), post, step (SetException f e) (run pre st))"
    using get_result_woken [OF assms(1) pre, of "SetException f e" post] by simp
qed

lemma get_result_gives_example:
  "\<not> fut_done (futs new_store 0) \<and> fut_exception (futs new_store 0) = None
   \<and> truthy (PyExc True True ''boom'')
   \<and> get_result 0 [] (snd (set_result 0 (PyInt 7) new_store))
       = Some (Inr (PyInt 7), [], snd (set_result 0 (PyInt 7) new_store))
   \<and> get_result 0 [] (snd (set_exception 0 (PyExc True True ''boom'') new_store))
       = Some (Inl (UserExc (PyExc True True ''boom'')), [],
               snd (set_exception 0 (PyExc True True ''boom'') new_store))
   \<and> get_result 0 [SetResult 1 (PyInt 3), IsDone 0] new_store = None
   \<and> get_result 0 [SetResult 1 (PyInt 3), SetResult 0 (PyInt 7), IsDone 0] new_store
       = Some (Inr (PyInt 7), [IsDone 0],
               step (SetResult 0 (PyInt 7)) (run [SetResult 1 (PyInt 3)] new_store))
   \<and> get_result 0 [SetResult 1 (PyInt 3), SetException 0 (PyExc True True ''boom'')] new_store
       = Some (Inl (UserExc (PyExc True True ''boom'')), [],
               step (SetException 0 (PyExc True True ''boom''))
                 (run [SetResult 1 (PyInt 3)] new_store))
   \<and> \<not> truthy (PyExc True False ''empty'')
   \<and> get_result 0 [SetResult 1 (PyInt 3), SetException 0 (PyExc True False ''empty'')] new_store
       = Some (Inr PyNone, [],
               step (SetException 0 (PyExc True False ''empty''))
                 (run [SetResult 1 (PyInt 3)] new_store))"
proof -
  have a: "\<not> fut_done (futs new_store 0)" and b: "fut_exception (futs new_store 0) = None"
    and r: "fut_result (futs new_store 0) = PyNone"
    by (simp_all add: new_store_def WMFuture_init_def)
  have e: "truthy (PyExc True True ''boom'')" by simp
  have n: "\<not> truthy (PyExc True False ''empty'')" by simp
  note t = get_result_gives [OF a b, of "[]" "PyInt 7" "PyExc True True ''boom''"]
  note u = get_result_gives [OF a b, of "[]" "PyInt 7" "PyExc True False ''empty''"]
  from t have c: "get_result 0 [SetResult 1 (PyInt 3), IsDone 0] new_store = None"
    by (elim conjE allE [of _ "[SetResult 1 (PyInt 3), IsDone 0]"]) simp
  from t have d: "get_result 0 ([SetResult 1 (PyInt 3)] @ SetResult 0 (PyInt 7) # [IsDone 0]) new_store
       = Some (Inr (PyInt 7), [IsDone 0],
               step (SetResult 0 (PyInt 7)) (run [SetResult 1 (PyInt 3)] new_store))"
    by (elim conjE allE [of _ "[SetResult 1 (PyInt 3)]"] allE [of _ "[IsDone 0]"]) simp
  from t e have g: "get_result 0 ([SetResult 1 (PyInt 3)] @ SetException 0 (PyExc True True ''boom'') # [])
         new_store
       = Some (Inl (UserExc (PyExc True True ''boom'')), [],
               step (SetException 0 (PyExc True True ''boom''))
                 (run [SetResult 1 (PyInt 3)] new_store))"
    by (elim conjE allE [of _ "[SetResult 1 (PyInt 3)]"] allE [of _ "[]"]) simp
  from u n r have h: "get_result 0 ([SetResult 1 (PyInt 3)] @ SetException 0 (PyExc True False ''empty'') # [])
         new_store
       = Some (Inr PyNone, [],
               step (SetException 0 (PyExc True False ''empty''))
                 (run [SetResult 1 (PyInt 3)] new_store))"
    by (elim conjE allE [of _ "[SetResult 1 (PyInt 3)]"] allE [of _ "[]"]) simp
  from a b e t c d g n h show ?thesis by simp
qed

text \<open>
  Claim C2 does not hold of the code. An exception that is not truthy is stored by
  \<open>_set_exception\<close> and the future is done, but \<open>get_result\<close> does not raise it:
  it returns the stored result, \<open>None\<close>, at once on the done future and after waking
  on the pending one. A truthy exception is raised.
\<close>

theorem C2_falsy_exception_not_raised:
  "\<not> fut_done (futs new_store 0)
   \<and> fut_done (futs (snd (set_exception 0 (PyExc True False ''empty'') new_store)) 0)
   \<and> fut_exception (futs (snd (set_exception 0 (PyExc True False ''empty'') new_store)) 0)
       = Some (PyExc True False ''empty'')
   \<and> get_result 0 [] (snd (set_exception 0 (PyExc True False ''empty'') new_store))
       = Some (Inr PyNone, [], snd (set_exception 0 (PyExc True False ''empty'') new_store))
   \<and> get_result 0 [SetException 0 (PyExc True False ''empty'')] new_store
       = Some (Inr PyNone, [], snd (set_exception 0 (PyExc True False ''empty'') new_store))
   \<and> get_result 0 [] (snd (set_exception 0 (PyExc True True ''boom'') new_store))
       = Some (Inl (UserExc (PyExc True True ''boom'')), [],
               snd (set_exception 0 (PyExc True True ''boom'') new_store))"
proof -
  have n: "\<not> fut_done (futs new_store 0)"
    by (simp add: new_store_def WMFuture_init_def)
  have w: "get_result 0 [SetException 0 (PyExc True False ''empty'')] new_store
       = Some (Inr PyNone, [], snd (set_exception 0 (PyExc True False ''empty'') new_store))"
    using get_result_woken [OF n, of "[]" "SetException 0 (PyExc True False ''empty'')" "[]"]
    by (simp add: set_exception_eq futs_settle resolve_def new_store_def WMFuture_init_def)
  from n w show ?thesis
    by (simp add: get_result_done set_exception_eq futs_settle resolve_def new_store_def
        WMFuture_init_def)
qed

section \<open>Registration and notification\<close>

lemma example_store_fields:
  "update_callbacks (futs example_store 0)
     = [Callback 1 (Raises (PyExc True True ''boom'')), Callback 2 Returns]"
  "fut_watchers (futs example_store 0) = [5]"
  "\<not> fut_done (futs example_store 0)"
  "fut_exception (futs example_store 0) = None"
  "wats example_store 5 = \<lparr>event = False, threshold = 1, completed = []\<rparr>"
  "trace example_store = []"
  by (simp_all add: example_store_def new_store_def WMFuture_init_def add_callback_eq
      add_watcher_eq)

lemma calls_of_cb_effects:
  "\<forall>c\<in>set cs. contained c \<Longrightarrow>
   filter is_Called (cb_effects f cs) = map (\<lambda>c. Called (cb_id c) f) cs"
  by (induction cs) (auto simp: contained_def split: outcome.splits)

lemma logged_in_cb_effects:
  "\<forall>c\<in>set cs. contained c \<Longrightarrow> c \<in> set cs \<Longrightarrow> cb_outcome c = Raises x \<Longrightarrow>
   Logged x \<in> set (cb_effects f cs)"
  by (induction cs) (auto simp: contained_def split: outcome.splits)

lemma completed_signalled [simp]: "completed (signalled f wt) = completed wt @ [f]"
  by (simp add: signalled_def Let_def)

lemma threshold_signalled [simp]: "threshold (signalled f wt) = threshold wt"
  by (simp add: signalled_def Let_def)

lemma event_signalled:
  "event (signalled f wt) \<longleftrightarrow> event wt \<or> threshold wt \<le> int (length (completed wt)) + 1"
  by (simp add: signalled_def Let_def)

lemma one_call: "filter is_Called (cb_effects f [c]) = [Called (cb_id c) f]"
  by (simp split: outcome.splits)

lemma pending_step:
  assumes "\<not> touches f x" and "\<not> fut_done (futs st f)"
  shows "\<not> fut_done (futs (step x st) f)"
    and "set (fut_watchers (futs st f)) \<subseteq> set (fut_watchers (futs (step x st) f))"
    and "\<exists>later. update_callbacks (futs (step x st) f) = update_callbacks (futs st f) @ later"
  using assms
  by (cases x; auto simp: add_watcher_eq add_callback_eq set_result_eq set_exception_eq
      futs_settle)+

lemma pending_run:
  assumes "\<forall>x\<in>set xs. \<not> touches f x" and "\<not> fut_done (futs st f)"
  shows "\<not> fut_done (futs (run xs st) f)
       \<and> set (fut_watchers (futs st f)) \<subseteq> set (fut_watchers (futs (run xs st) f))
       \<and> (\<exists>later. update_callbacks (futs (run xs st) f) = update_callbacks (futs st f) @ later)"
  using assms
proof (induction xs arbitrary: st)
  case Nil
  then show ?case by simp
next
  case (Cons x xs)
  from Cons.prems have x: "\<not> touches f x" and xs: "\<forall>x\<in>set xs. \<not> touches f x" by simp_all
  note s = pending_step [OF x Cons.prems(2)]
  from Cons.IH [OF xs s(1)] s(2,3) show ?case by auto
qed

text \<open>
  Claim C3, as amended. On a future that is done, \<open>_add_watcher(w)\<close> signals \<open>w\<close> there
  and then, once (the future is appended once to the watcher's completed list), and
  stores nothing on the future; \<open>_add_callback(c)\<close> calls \<open>c\<close> there and then, once,
  and stores nothing on the future. Neither takes a schedule: they do not wait. On a
  pending future the watcher goes into the watcher set and the callback to the end of
  the callback list, and nothing is signalled or called yet. Whatever the other threads
  call next, short of completing or constructing the future anew, the future stays
  pending, the watcher stays in the set and the callback in the list, after those
  registered before it. The completing call, \<open>_set_result\<close> or \<open>_set_exception\<close>,
  signals the watcher once and calls every callback of the list, once and in order,
  when every callback stored on the future by then returns or raises an \<open>Exception\<close>.
\<close>

theorem C3_registration:
  "(fut_done (futs st f) \<longrightarrow>
       add_watcher f w st = ((), signal w f st)
     \<and> completed (wats (snd (add_watcher f w st)) w) = completed (wats st w) @ [f]
     \<and> futs (snd (add_watcher f w st)) = futs st
     \<and> trace (snd (add_callback f c st)) = trace st @ cb_effects f [c]
     \<and> filter is_Called (cb_effects f [c]) = [Called (cb_id c) f]
     \<and> futs (snd (add_callback f c st)) = futs st)
 \<and> (\<not> fut_done (futs st f) \<longrightarrow>
       add_watcher f w st =
         ((), upd_fut f (\<lambda>r. r\<lparr>fut_watchers := List.insert w (fut_watchers r)\<rparr>) st)
     \<and> add_callback f c st =
         (Inr (), upd_fut f (\<lambda>r. r\<lparr>update_callbacks := update_callbacks r @ [c]\<rparr>) st)
     \<and> (\<forall>xs s. (\<forall>x\<in>set xs. \<not> touches f x) \<and> s = run xs (snd (add_watcher f w st)) \<longrightarrow>
           \<not> fut_done (futs s f)
         \<and> w \<in> set (fut_watchers (futs s f))
         \<and> ((\<forall>d\<in>set (update_callbacks (futs s f)). contained d) \<longrightarrow>
               wats (snd (set_result f v s)) w = signalled f (wats s w)
             \<and> wats (snd (set_exception f e s)) w = signalled f (wats s w)))
     \<and> (\<forall>xs s. (\<forall>x\<in>set xs. \<not> touches f x) \<and> s = run xs (snd (add_callback f c st)) \<longrightarrow>
           \<not> fut_done (futs s f)
         \<and> (\<exists>later. update_callbacks (futs s f) = update_callbacks (futs st f) @ c # later)
         \<and> ((\<forall>d\<in>set (update_callbacks (futs s f)). contained d) \<longrightarrow>
               filter is_Called (drop (length (trace s)) (trace (snd (set_result f v s))))
                 = map (\<lambda>d. Called (cb_id d) f) (update_callbacks (futs s f))
             \<and> filter is_Called (drop (length (trace s)) (trace (snd (set_exception f e s))))
                 = map (\<lambda>d. Called (cb_id d) f) (update_callbacks (futs s f)))))"
proof (intro conjI impI allI)
  assume d: "fut_done (futs st f)"
  show "add_watcher f w st = ((), signal w f st)" using d by (simp add: add_watcher_eq)
  show "completed (wats (snd (add_watcher f w st)) w) = completed (wats st w) @ [f]"
    using d by (simp add: add_watcher_eq wats_signal)
  show "futs (snd (add_watcher f w st)) = futs st" using d by (simp add: add_watcher_eq)
  show "trace (snd (add_callback f c st)) = trace st @ cb_effects f [c]"
    using d by (simp add: add_callback_eq)
  show "filter is_Called (cb_effects f [c]) = [Called (cb_id c) f]" by (rule one_call)
  show "futs (snd (add_callback f c st)) = futs st" using d by (simp add: add_callback_eq)
next
  assume p: "\<not> fut_done (futs st f)"
  show "add_watcher f w st =
         ((), upd_fut f (\<lambda>r. r\<lparr>fut_watchers := List.insert w (fut_watchers r)\<rparr>) st)"
    using p by (simp add: add_watcher_eq)
  show "add_callback f c st =
         (Inr (), upd_fut f (\<lambda>r. r\<lparr>update_callbacks := update_callbacks r @ [c]\<rparr>) st)"
    using p by (simp add: add_callback_eq)
next
  fix xs s
  assume p: "\<not> fut_done (futs st f)"
    and xs: "(\<forall>x\<in>set xs. \<not> touches f x) \<and> s = run xs (snd (add_watcher f w st))"
  from p have p': "\<not> fut_done (futs (snd (add_watcher f w st)) f)"
    and w': "w \<in> set (fut_watchers (futs (snd (add_watcher f w st)) f))"
    by (simp_all add: add_watcher_eq)
  from xs pending_run [OF _ p', of xs] w'
  show "\<not> fut_done (futs s f)" and w: "w \<in> set (fut_watchers (futs s f))" by auto
  assume "\<forall>d\<in>set (update_callbacks (futs s f)). contained d"
  then have esc: "cb_escapes (update_callbacks (futs s f)) = None"
    by (simp add: cb_escapes_contained)
  show "wats (snd (set_result f v s)) w = signalled f (wats s w)"
    using w esc by (simp add: set_result_eq wats_settle)
  show "wats (snd (set_exception f e s)) w = signalled f (wats s w)"
    using w esc by (simp add: set_exception_eq wats_settle)
next
  fix xs s
  assume p: "\<not> fut_done (futs st f)"
    and xs: "(\<forall>x\<in>set xs. \<not> touches f x) \<and> s = run xs (snd (add_callback f c st))"
  from p have p': "\<not> fut_done (futs (snd (add_callback f c st)) f)"
    and c': "update_callbacks (futs (snd (add_callback f c st)) f)
               = update_callbacks (futs st f) @ [c]"
    by (simp_all add: add_callback_eq)
  from xs pending_run [OF _ p', of xs] c'
  show "\<not> fut_done (futs s f)"
    and "\<exists>later. update_callbacks (futs s f) = update_callbacks (futs st f) @ c # later"
    by auto
  assume all: "\<forall>d\<in>set (update_callbacks (futs s f)). contained d"
  show "filter is_Called (drop (length (trace s)) (trace (snd (set_result f v s))))
          = map (\<lambda>d. Called (cb_id d) f) (update_callbacks (futs s f))"
    using calls_of_cb_effects [OF all, of f] by (simp add: set_result_eq trace_settle)
  show "filter is_Called (drop (length (trace s)) (trace (snd (set_exception f e s))))
          = map (\<lambda>d. Called (cb_id d) f) (update_callbacks (futs s f))"
    using calls_of_cb_effects [OF all, of f] by (simp add: set_exception_eq trace_settle)
qed

theorem C3_registration_witness:
  "fut_done (futs (snd (set_result 0 (PyInt 1) new_store)) 0)
   \<and> completed (wats (snd (add_watcher 0 5 (snd (set_result 0 (PyInt 1) new_store)))) 5) = [0]
   \<and> fut_watchers (futs (snd (add_watcher 0 5 (snd (set_result 0 (PyInt 1) new_store)))) 0) = []
   \<and> trace (snd (add_callback 0 (Callback 2 Returns) (snd (set_result 0 (PyInt 1) new_store))))
       = [Called 2 0]
   \<and> update_callbacks
        (futs (snd (add_callback 0 (Callback 2 Returns) (snd (set_result 0 (PyInt 1) new_store)))) 0)
       = []
   \<and> \<not> fut_done (futs example_store 0)
   \<and> \<not> touches 0 (AddCallback 0 (Callback 4 Returns))
   \<and> 6 \<in> set (fut_watchers
               (futs (run [AddCallback 0 (Callback 4 Returns)] (snd (add_watcher 0 6 example_store)))
                  0))
   \<and> completed
       (wats (snd (set_result 0 (PyInt 1)
                     (run [AddCallback 0 (Callback 4 Returns)]
                        (snd (add_watcher 0 6 example_store))))) 6) = [0]
   \<and> filter is_Called
        (trace (snd (set_result 0 (PyInt 1)
                       (run [AddCallback 0 (Callback 4 Returns)]
                          (snd (add_callback 0 (Callback 3 Returns) example_store))))))
       = [Called 1 0, Called 2 0, Called 3 0, Called 4 0]"
proof -
  let ?d = "snd (set_result 0 (PyInt 1) new_store)"
  let ?xs = "[AddCallback 0 (Callback 4 Returns)]"
  let ?sw = "run ?xs (snd (add_watcher 0 6 example_store))"
  let ?sc = "run ?xs (snd (add_callback 0 (Callback 3 Returns) example_store))"
  have d: "fut_done (futs ?d 0)" by (simp add: set_result_eq futs_settle)
  have dw: "fut_watchers (futs ?d 0) = []" "trace ?d = []" "completed (wats ?d 5) = []"
    "update_callbacks (futs ?d 0) = []"
    by (simp_all add: set_result_eq futs_settle trace_settle wats_settle new_store_def
        WMFuture_init_def)
  have xs: "\<forall>x\<in>set ?xs. \<not> touches 0 x" by simp
  have sw: "update_callbacks (futs ?sw 0)
              = [Callback 1 (Raises (PyExc True True ''boom'')), Callback 2 Returns,
                 Callback 4 Returns]"
    "completed (wats ?sw 6) = []" "threshold (wats ?sw 6) = 1"
    by (simp_all add: example_store_fields add_watcher_eq add_callback_eq example_store_def
        new_store_def WMFuture_init_def)
  have sc: "update_callbacks (futs ?sc 0)
              = [Callback 1 (Raises (PyExc True True ''boom'')), Callback 2 Returns,
                 Callback 3 Returns, Callback 4 Returns]"
    "trace ?sc = []"
    by (simp_all add: example_store_fields add_callback_eq)
  have hw: "\<forall>d\<in>set (update_callbacks (futs ?sw 0)). contained d"
    by (simp only: sw) (simp add: contained_def)
  have hc: "\<forall>d\<in>set (update_callbacks (futs ?sc 0)). contained d"
    by (simp only: sc) (simp add: contained_def)
  note a = C3_registration [of ?d 0 5 "Callback 2 Returns" "PyInt 1" "PyExc True True ''boom''"]
  note b = C3_registration [of example_store 0 6 "Callback 3 Returns" "PyInt 1"
      "PyExc True True ''boom''"]
  from a d dw have 1:
    "completed (wats (snd (add_watcher 0 5 ?d)) 5) = [0]"
    "fut_watchers (futs (snd (add_watcher 0 5 ?d)) 0) = []"
    "trace (snd (add_callback 0 (Callback 2 Returns) ?d)) = [Called 2 0]"
    "update_callbacks (futs (snd (add_callback 0 (Callback 2 Returns) ?d)) 0) = []"
    by (simp_all add: wats_signal)
  from b example_store_fields(3) have
    bw: "\<forall>xs s. (\<forall>x\<in>set xs. \<not> touches 0 x) \<and> s = run xs (snd (add_watcher 0 6 example_store)) \<longrightarrow>
           \<not> fut_done (futs s 0)
         \<and> 6 \<in> set (fut_watchers (futs s 0))
         \<and> ((\<forall>d\<in>set (update_callbacks (futs s 0)). contained d) \<longrightarrow>
               wats (snd (set_result 0 (PyInt 1) s)) 6 = signalled 0 (wats s 6)
             \<and> wats (snd (set_exception 0 (PyExc True True ''boom'') s)) 6
                 = signalled 0 (wats s 6))"
    and bc: "\<forall>xs s. (\<forall>x\<in>set xs. \<not> touches 0 x)
               \<and> s = run xs (snd (add_callback 0 (Callback 3 Returns) example_store)) \<longrightarrow>
           \<not> fut_done (futs s 0)
         \<and> (\<exists>later. update_callbacks (futs s 0)
               = update_callbacks (futs example_store 0) @ Callback 3 Returns # later)
         \<and> ((\<forall>d\<in>set (update_callbacks (futs s 0)). contained d) \<longrightarrow>
               filter is_Called
                 (drop (length (trace s)) (trace (snd (set_result 0 (PyInt 1) s))))
                 = map (\<lambda>d. Called (cb_id d) 0) (update_callbacks (futs s 0))
             \<and> filter is_Called
                 (drop (length (trace s))
                    (trace (snd (set_exception 0 (PyExc True True ''boom'') s))))
                 = map (\<lambda>d. Called (cb_id d) 0) (update_callbacks (futs s 0)))"
    by blast+
  from bw [rule_format, of ?xs ?sw] xs hw have 2:
    "6 \<in> set (fut_watchers (futs ?sw 0))"
    "wats (snd (set_result 0 (PyInt 1) ?sw)) 6 = signalled 0 (wats ?sw 6)"
    by blast+
  from 2(2) sw have 3: "completed (wats (snd (set_result 0 (PyInt 1) ?sw)) 6) = [0]"
    by simp
  from bc [rule_format, of ?xs ?sc] xs hc have
    "filter is_Called (drop (length (trace ?sc)) (trace (snd (set_result 0 (PyInt 1) ?sc))))
       = map (\<lambda>d. Called (cb_id d) 0) (update_callbacks (futs ?sc 0))"
    by blast
  then have 4: "filter is_Called (trace (snd (set_result 0 (PyInt 1) ?sc)))
       = [Called 1 0, Called 2 0, Called 3 0, Called 4 0]"
    by (simp only: sc) simp
  from d 1 example_store_fields(3) 2(1) 3 4 show ?thesis by simp
qed

text \<open>The claim as it stands fails when a callback stored on the future raises an
  exception outside \<open>Exception\<close>. Future 0 holds a callback that raises
  \<open>KeyboardInterrupt\<close>. Watcher 5 registers while the future is pending, and so does
  callback 2. The completing call marks the future done and raises out of the first
  callback: watcher 5 is never signalled and callback 2 never called, and both stay
  stored on the future.\<close>

theorem C3_counterexample:
  "\<not> fut_done (futs kbd_store 0)
   \<and> fst (set_result 0 (PyInt 1) (snd (add_watcher 0 5 kbd_store)))
       = Inl (UserExc (PyExc False True ''KeyboardInterrupt''))
   \<and> fut_done (futs (snd (set_result 0 (PyInt 1) (snd (add_watcher 0 5 kbd_store)))) 0)
   \<and> wats (snd (set_result 0 (PyInt 1) (snd (add_watcher 0 5 kbd_store)))) 5
       = \<lparr>event = False, threshold = 1, completed = []\<rparr>
   \<and> fut_watchers (futs (snd (set_result 0 (PyInt 1) (snd (add_watcher 0 5 kbd_store)))) 0)
       = [5]
   \<and> fut_done
       (futs (snd (set_result 0 (PyInt 1) (snd (add_callback 0 (Callback 2 Returns) kbd_store))))
          0)
   \<and> trace (snd (set_result 0 (PyInt 1) (snd (add_callback 0 (Callback 2 Returns) kbd_store))))
       = [Called 1 0]"
  by (simp add: kbd_store_def new_store_def WMFuture_init_def add_callback_eq add_watcher_eq
      set_result_eq fst_settle futs_settle wats_settle trace_settle)

lemma kbd_example_fields:
  "update_callbacks (futs kbd_example 0)
     = [Callback 1 (Raises (PyExc False True ''KeyboardInterrupt'')), Callback 2 Returns]"
  "fut_watchers (futs kbd_example 0) = [5]"
  "\<not> fut_done (futs kbd_example 0)"
  "wats kbd_example 5 = \<lparr>event = False, threshold = 1, completed = []\<rparr>"
  "trace kbd_example = []"
  by (simp_all add: kbd_example_def kbd_store_def new_store_def WMFuture_init_def add_callback_eq
      add_watcher_eq)

lemma cb_escaped:
  assumes "\<forall>d\<in>set pre. contained d" and "cb_outcome c = Raises x" and "\<not> is_Exception x"
  shows "cb_escapes (pre @ c # post) = Some x"
    and "filter is_Called (cb_effects f (pre @ c # post))
           = map (\<lambda>d. Called (cb_id d) f) (pre @ [c])"
    and "Logged x \<notin> set (cb_effects f (pre @ c # post))"
  using assms by (induction pre; auto simp: contained_def split: outcome.splits)+

text \<open>
  Claim C6, as amended. When \<open>_set_result\<close> or \<open>_set_exception\<close> completes a future
  whose callbacks return or raise an \<open>Exception\<close>, the call returns normally; every
  callback of the list has been called, once and in the order of registration, whichever
  of them raised; every exception raised has been logged; and every watcher of the
  future has been signalled, once. When a callback raises an exception outside
  \<open>Exception\<close>, the first that does ends the call: the exception is not logged and
  goes to the caller of \<open>_set_result\<close> or \<open>_set_exception\<close>, the future is done, the
  callbacks after that one are not called, and no watcher is signalled.
\<close>

theorem C6_callbacks_isolated:
  assumes "R = set_result f v st \<or> R = set_exception f e st"
  shows "((\<forall>c\<in>set (update_callbacks (futs st f)). contained c) \<longrightarrow>
           fst R = Inr ()
         \<and> filter is_Called (drop (length (trace st)) (trace (snd R)))
             = map (\<lambda>c. Called (cb_id c) f) (update_callbacks (futs st f))
         \<and> (\<forall>c x. c \<in> set (update_callbacks (futs st f)) \<and> cb_outcome c = Raises x
               \<longrightarrow> Logged x \<in> set (drop (length (trace st)) (trace (snd R))))
         \<and> (\<forall>w\<in>set (fut_watchers (futs st f)).
               wats (snd R) w = signalled f (wats st w)
             \<and> completed (wats (snd R) w) = completed (wats st w) @ [f]))
       \<and> (\<forall>pre c x post.
             update_callbacks (futs st f) = pre @ c # post \<and> (\<forall>d\<in>set pre. contained d)
           \<and> cb_outcome c = Raises x \<and> \<not> is_Exception x \<longrightarrow>
             fst R = Inl (UserExc x)
           \<and> fut_done (futs (snd R) f)
           \<and> filter is_Called (drop (length (trace st)) (trace (snd R)))
               = map (\<lambda>d. Called (cb_id d) f) (pre @ [c])
           \<and> Logged x \<notin> set (drop (length (trace st)) (trace (snd R)))
           \<and> wats (snd R) = wats st)"
proof -
  from assms obtain h where R: "R = settle f h st" and h: "\<And>r. fut_done (h r)"
    by (auto simp: set_result_eq set_exception_eq)
  have 1: "fst R = Inr ()
         \<and> filter is_Called (drop (length (trace st)) (trace (snd R)))
             = map (\<lambda>c. Called (cb_id c) f) (update_callbacks (futs st f))
         \<and> (\<forall>c x. c \<in> set (update_callbacks (futs st f)) \<and> cb_outcome c = Raises x
               \<longrightarrow> Logged x \<in> set (drop (length (trace st)) (trace (snd R))))
         \<and> (\<forall>w\<in>set (fut_watchers (futs st f)).
               wats (snd R) w = signalled f (wats st w)
             \<and> completed (wats (snd R) w) = completed (wats st w) @ [f])"
    if c: "\<forall>c\<in>set (update_callbacks (futs st f)). contained c"
  proof -
    from c have esc: "cb_escapes (update_callbacks (futs st f)) = None"
      by (simp add: cb_escapes_contained)
    show ?thesis
      using c esc
      by (auto simp: R fst_settle trace_settle wats_settle calls_of_cb_effects
          logged_in_cb_effects)
  qed
  have 2: "fst R = Inl (UserExc x)
           \<and> fut_done (futs (snd R) f)
           \<and> filter is_Called (drop (length (trace st)) (trace (snd R)))
               = map (\<lambda>d. Called (cb_id d) f) (pre @ [c])
           \<and> Logged x \<notin> set (drop (length (trace st)) (trace (snd R)))
           \<and> wats (snd R) = wats st"
    if u: "update_callbacks (futs st f) = pre @ c # post \<and> (\<forall>d\<in>set pre. contained d)
           \<and> cb_outcome c = Raises x \<and> \<not> is_Exception x"
    for pre c x post
  proof -
    from u have p: "\<forall>d\<in>set pre. contained d" and c: "cb_outcome c = Raises x"
      and x: "\<not> is_Exception x" and cbs: "update_callbacks (futs st f) = pre @ c # post"
      by simp_all
    note e = cb_escaped [OF p c x]
    from e(1) have "fst R = Inl (UserExc x)" by (simp add: R fst_settle cbs)
    moreover from e(1) have "fut_done (futs (snd R) f)" by (simp add: R futs_settle cbs h)
    moreover from e(2) have "filter is_Called (drop (length (trace st)) (trace (snd R)))
               = map (\<lambda>d. Called (cb_id d) f) (pre @ [c])"
      by (simp add: R trace_settle cbs)
    moreover from e(3) have "Logged x \<notin> set (drop (length (trace st)) (trace (snd R)))"
      by (simp add: R trace_settle cbs)
    moreover from e(1) have "wats (snd R) = wats st"
      by (simp add: R wats_settle cbs fun_eq_iff)
    ultimately show ?thesis by simp
  qed
  from 1 2 show ?thesis by blast
qed

theorem C6_callbacks_isolated_witness:
  "fst (set_result 0 (PyInt 1) example_store) = Inr ()
   \<and> filter is_Called (trace (snd (set_result 0 (PyInt 1) example_store)))
       = [Called 1 0, Called 2 0]
   \<and> Logged (PyExc True True ''boom'') \<in> set (trace (snd (set_result 0 (PyInt 1) example_store)))
   \<and> completed (wats (snd (set_result 0 (PyInt 1) example_store)) 5) = [0]
   \<and> event (wats (snd (set_result 0 (PyInt 1) example_store)) 5)
   \<and> fst (set_exception 0 (PyExc True True ''boom'') kbd_example)
       = Inl (UserExc (PyExc False True ''KeyboardInterrupt''))
   \<and> fut_done (futs (snd (set_exception 0 (PyExc True True ''boom'') kbd_example)) 0)
   \<and> filter is_Called (trace (snd (set_exception 0 (PyExc True True ''boom'') kbd_example)))
       = [Called 1 0]
   \<and> wats (snd (set_exception 0 (PyExc True True ''boom'') kbd_example)) = wats kbd_example"
proof -
  have h: "\<forall>c\<in>set (update_callbacks (futs example_store 0)). contained c"
    by (simp add: example_store_fields contained_def)
  have "set_result 0 (PyInt 1) example_store = set_result 0 (PyInt 1) example_store
      \<or> set_result 0 (PyInt 1) example_store
          = set_exception 0 (PyExc True True ''boom'') example_store"
    by simp
  note t = C6_callbacks_isolated [OF this, THEN conjunct1, THEN mp, OF h]
  from t have "\<forall>c x. c \<in> set (update_callbacks (futs example_store 0)) \<and> cb_outcome c = Raises x
      \<longrightarrow> Logged x \<in> set (drop (length (trace example_store))
                              (trace (snd (set_result 0 (PyInt 1) example_store))))"
    by blast
  from this [rule_format, of "Callback 1 (Raises (PyExc True True ''boom''))" "PyExc True True ''boom''"]
  have l: "Logged (PyExc True True ''boom'') \<in> set (trace (snd (set_result 0 (PyInt 1) example_store)))"
    by (simp add: example_store_fields)
  from t l have a: "fst (set_result 0 (PyInt 1) example_store) = Inr ()
   \<and> filter is_Called (trace (snd (set_result 0 (PyInt 1) example_store)))
       = [Called 1 0, Called 2 0]
   \<and> Logged (PyExc True True ''boom'') \<in> set (trace (snd (set_result 0 (PyInt 1) example_store)))
   \<and> completed (wats (snd (set_result 0 (PyInt 1) example_store)) 5) = [0]
   \<and> event (wats (snd (set_result 0 (PyInt 1) example_store)) 5)"
    by (simp add: example_store_fields signalled_def)
  let ?k = "Callback 1 (Raises (PyExc False True ''KeyboardInterrupt''))"
  have "set_exception 0 (PyExc True True ''boom'') kbd_example
          = set_result 0 (PyInt 1) kbd_example
      \<or> set_exception 0 (PyExc True True ''boom'') kbd_example
          = set_exception 0 (PyExc True True ''boom'') kbd_example"
    by simp
  note u = C6_callbacks_isolated [OF this, THEN conjunct2, THEN spec [where x = "[]"],
      THEN spec [where x = ?k], THEN spec [where x = "PyExc False True ''KeyboardInterrupt''"],
      THEN spec [where x = "[Callback 2 Returns]"], THEN mp]
  have "update_callbacks (futs kbd_example 0) = [] @ ?k # [Callback 2 Returns]
      \<and> (\<forall>d\<in>set []. contained d)
      \<and> cb_outcome ?k = Raises (PyExc False True ''KeyboardInterrupt'')
      \<and> \<not> is_Exception (PyExc False True ''KeyboardInterrupt'')"
    by (simp add: kbd_example_fields)
  from u [OF this] have b:
    "fst (set_exception 0 (PyExc True True ''boom'') kbd_example)
       = Inl (UserExc (PyExc False True ''KeyboardInterrupt''))
   \<and> fut_done (futs (snd (set_exception 0 (PyExc True True ''boom'') kbd_example)) 0)
   \<and> filter is_Called (trace (snd (set_exception 0 (PyExc True True ''boom'') kbd_example)))
       = [Called 1 0]
   \<and> wats (snd (set_exception 0 (PyExc True True ''boom'') kbd_example)) = wats kbd_example"
    by (simp add: kbd_example_fields)
  from a b show ?thesis by (simp only: simp_thms)
qed

text \<open>The claim as it stands fails for a callback that raises \<open>KeyboardInterrupt\<close>:
  the exception is not caught. Of the callbacks 1, which raises it, and 2, and watcher
  5, all registered on future 0, the completing call runs callback 1 alone, logs
  nothing and signals nothing, and raises.\<close>

theorem C6_counterexample:
  "update_callbacks (futs kbd_example 0)
     = [Callback 1 (Raises (PyExc False True ''KeyboardInterrupt'')), Callback 2 Returns]
   \<and> fut_watchers (futs kbd_example 0) = [5]
   \<and> fst (set_result 0 (PyInt 1) kbd_example)
       = Inl (UserExc (PyExc False True ''KeyboardInterrupt''))
   \<and> trace (snd (set_result 0 (PyInt 1) kbd_example)) = [Called 1 0]
   \<and> wats (snd (set_result 0 (PyInt 1) kbd_example)) 5
       = \<lparr>event = False, threshold = 1, completed = []\<rparr>
   \<and> fut_done (futs (snd (set_result 0 (PyInt 1) kbd_example)) 0)"
  by (simp add: kbd_example_fields set_result_eq fst_settle futs_settle wats_settle trace_settle)

text \<open>
  Claim C10, as amended. On a future that is done, \<open>_add_callback(c)\<close> calls \<open>c\<close> at
  once, once, and leaves the futures and the watchers as they are. When \<open>c\<close> returns,
  \<open>_add_callback\<close> returns and nothing is logged; when \<open>c\<close> raises an \<open>Exception\<close>,
  the exception is caught and logged and \<open>_add_callback\<close> returns normally; when \<open>c\<close>
  raises an exception outside \<open>Exception\<close>, nothing is logged and \<open>_add_callback\<close>
  raises that exception.
\<close>

theorem C10_add_callback_on_done:
  assumes "fut_done (futs st f)"
  shows "filter is_Called (drop (length (trace st)) (trace (snd (add_callback f c st))))
           = [Called (cb_id c) f]
       \<and> futs (snd (add_callback f c st)) = futs st
       \<and> wats (snd (add_callback f c st)) = wats st
       \<and> (cb_outcome c = Returns \<longrightarrow>
            fst (add_callback f c st) = Inr ()
          \<and> trace (snd (add_callback f c st)) = trace st @ [Called (cb_id c) f])
       \<and> (\<forall>x. cb_outcome c = Raises x \<and> is_Exception x \<longrightarrow>
            fst (add_callback f c st) = Inr ()
          \<and> trace (snd (add_callback f c st)) = trace st @ [Called (cb_id c) f, Logged x])
       \<and> (\<forall>x. cb_outcome c = Raises x \<and> \<not> is_Exception x \<longrightarrow>
            fst (add_callback f c st) = Inl (UserExc x)
          \<and> trace (snd (add_callback f c st)) = trace st @ [Called (cb_id c) f])"
  using assms by (simp add: add_callback_eq split: outcome.splits)

theorem C10_add_callback_on_done_witness:
  "fut_done (futs (snd (set_result 0 (PyInt 1) new_store)) 0)
   \<and> fst (add_callback 0 (Callback 1 (Raises (PyExc True True ''boom'')))
            (snd (set_result 0 (PyInt 1) new_store))) = Inr ()
   \<and> trace (snd (add_callback 0 (Callback 1 (Raises (PyExc True True ''boom'')))
                   (snd (set_result 0 (PyInt 1) new_store))))
       = [Called 1 0, Logged (PyExc True True ''boom'')]
   \<and> fst (add_callback 0 (Callback 2 Returns) (snd (set_result 0 (PyInt 1) new_store))) = Inr ()
   \<and> trace (snd (add_callback 0 (Callback 2 Returns) (snd (set_result 0 (PyInt 1) new_store))))
       = [Called 2 0]
   \<and> fst (add_callback 0 (Callback 3 (Raises (PyExc False True ''SystemExit'')))
            (snd (set_result 0 (PyInt 1) new_store)))
       = Inl (UserExc (PyExc False True ''SystemExit''))
   \<and> trace (snd (add_callback 0 (Callback 3 (Raises (PyExc False True ''SystemExit'')))
                   (snd (set_result 0 (PyInt 1) new_store))))
       = [Called 3 0]"
proof -
  let ?d = "snd (set_result 0 (PyInt 1) new_store)"
  have h: "fut_done (futs ?d 0)"
    by (simp add: set_result_eq futs_settle)
  have t: "trace ?d = []"
    by (simp add: set_result_eq trace_settle new_store_def WMFuture_init_def)
  from h t C10_add_callback_on_done [OF h, of "Callback 1 (Raises (PyExc True True ''boom''))"]
    C10_add_callback_on_done [OF h, of "Callback 2 Returns"]
    C10_add_callback_on_done [OF h, of "Callback 3 (Raises (PyExc False True ''SystemExit''))"]
  show ?thesis by simp
qed

text \<open>The claim as it stands fails for a callback that raises \<open>SystemExit\<close>:
  \<open>_add_callback\<close> on a future that is done calls it, logs nothing and raises the
  exception to its caller.\<close>

theorem C10_counterexample:
  "fut_done (futs (snd (set_result 0 (PyInt 1) new_store)) 0)
   \<and> add_callback 0 (Callback 1 (Raises (PyExc False True ''SystemExit'')))
         (snd (set_result 0 (PyInt 1) new_store))
       = (Inl (UserExc (PyExc False True ''SystemExit'')),
          add_trace [Called 1 0] (snd (set_result 0 (PyInt 1) new_store)))
   \<and> trace (snd (add_callback 0 (Callback 1 (Raises (PyExc False True ''SystemExit'')))
                   (snd (set_result 0 (PyInt 1) new_store))))
       = [Called 1 0]"
  by (simp add: add_callback_eq set_result_eq futs_settle trace_settle new_store_def
      WMFuture_init_def)

section \<open>The attribute \<open>_returned\<close>\<close>

lemma unassigned_upd_fut:
  "unassigned st \<Longrightarrow> (\<And>r. fut_returned (h r) = fut_returned r) \<Longrightarrow> unassigned (upd_fut f h st)"
  by (simp add: unassigned_def)

lemma unassigned_futs: "futs st' = futs st \<Longrightarrow> unassigned st' = unassigned st"
  by (simp add: unassigned_def)

lemma unassigned_settle:
  "unassigned st \<Longrightarrow> (\<And>r. fut_returned (h r) = fut_returned r) \<Longrightarrow>
   unassigned (snd (settle f h st))"
  by (simp add: unassigned_def futs_settle)

lemma unassigned_step: "unassigned st \<Longrightarrow> unassigned (step x st)"
proof (cases x)
  case (Construct f t u)
  assume "unassigned st"
  then show ?thesis by (simp add: Construct unassigned_def WMFuture_init_def)
next
  case (SetResult f v)
  assume "unassigned st"
  then show ?thesis by (simp add: SetResult set_result_eq unassigned_settle)
next
  case (SetException f e)
  assume "unassigned st"
  then show ?thesis by (simp add: SetException set_exception_eq unassigned_settle)
next
  case (AddWatcher f w)
  assume "unassigned st"
  then show ?thesis by (simp add: AddWatcher add_watcher_eq unassigned_def)
next
  case (AddCallback f c)
  assume "unassigned st"
  then show ?thesis by (simp add: AddCallback add_callback_eq unassigned_def)
next
  case (IsDone f)
  assume "unassigned st"
  then show ?thesis by (simp add: IsDone)
next
  case (Reset w)
  assume "unassigned st"
  then show ?thesis by (simp add: Reset unassigned_def)
qed

lemma unassigned_await:
  "unassigned st \<Longrightarrow> await_notify f sched st = Some (sched', st') \<Longrightarrow> unassigned st'"
proof (induction sched arbitrary: st)
  case Nil
  then show ?case by simp
next
  case (Cons x xs)
  from Cons.prems(1) have u: "unassigned (step x st)" by (rule unassigned_step)
  show ?case
  proof (cases "notifies f x")
    case True
    with Cons.prems(2) u show ?thesis by simp
  next
    case False
    with Cons.prems(2) have "await_notify f xs (step x st) = Some (sched', st')" by simp
    from Cons.IH [OF u this] show ?thesis .
  qed
qed

lemma unassigned_acquire [simp]: "unassigned (acquire f st) = unassigned st"
  by (auto simp: unassigned_def acquire_def)

lemma unassigned_release [simp]: "unassigned (release f st) = unassigned st"
  by (auto simp: unassigned_def release_def)

lemma unassigned_condition [simp]:
  "unassigned (upd_fut f (condition_update k) st) = unassigned st"
  by (auto simp: unassigned_def)

lemma unassigned_get_result:
  assumes "unassigned st" "get_result f sched st = Some (r, sched', st')"
  shows "unassigned st'"
proof (cases "fut_done (futs st f)")
  case True
  with assms show ?thesis by (simp add: get_result_done)
next
  case False
  then have nd: "\<not> fut_done (futs (acquire f st) f)" by (simp add: fut_done_payload)
  from assms(2) nd obtain s1 where
    aw: "await_notify f sched (upd_fut f (condition_update (\<lambda>_. 0)) (acquire f st)) = Some (sched', s1)"
    and st': "st' = release f (upd_fut f (condition_update (\<lambda>_. condition (futs (acquire f st) f))) s1)"
    by (auto simp: get_result_def Let_def condition_wait_def split: option.splits if_splits)
  from unassigned_await [OF _ aw] assms(1) have "unassigned s1" by simp
  then show ?thesis by (simp add: st')
qed

lemma unassigned_exec: "unassigned st \<Longrightarrow> exec c st = Some st' \<Longrightarrow> unassigned st'"
  by (cases c) (auto simp: unassigned_step split: option.splits dest: unassigned_get_result)

lemma unassigned_exec_all: "unassigned st \<Longrightarrow> exec_all cs st = Some st' \<Longrightarrow> unassigned st'"
  by (induction cs arbitrary: st) (auto split: option.splits dest: unassigned_exec)

text \<open>
  Claim C9. \<open>__init__\<close> does not assign \<open>_returned\<close>, and no call does: from a store
  whose futures lack the attribute, after any sequence of constructions,
  \<open>_set_result\<close>, \<open>_set_exception\<close>, \<open>get_result\<close>, \<open>_add_watcher\<close>,
  \<open>_add_callback\<close>, \<open>is_done\<close> (and a watcher's \<open>reset\<close>), every future still lacks
  it. So \<open>get_exception\<close>, which reads \<open>_returned\<close> first, raises
  \<open>AttributeError\<close> there, on a pending future and on a done one alike: it never gets
  to a test of \<open>_done\<close> as \<open>get_result\<close> does.
\<close>

theorem C9_returned_never_assigned:
  assumes "\<forall>g. fut_returned (futs st g) = None" and "exec_all cs st = Some st'"
  shows "fut_returned (WMFuture_init tid uuid4) = None
       \<and> (\<forall>g. fut_returned (futs st' g) = None)
       \<and> get_exception f sched st' = Some (Inl AttributeError, sched, st')"
proof -
  from assms have "unassigned st'"
    using unassigned_exec_all [of st cs st'] by (simp add: unassigned_def)
  then have u: "\<forall>g. fut_returned (futs st' g) = None" by (simp add: unassigned_def)
  then have "fut_returned (futs (acquire f st') f) = None" by (simp add: acquire_def)
  with u show ?thesis by (simp add: get_exception_def Let_def WMFuture_init_def)
qed

theorem C9_returned_never_assigned_witness:
  "exec_all [Call (Construct 0 None ''t0''), Call (AddCallback 0 (Callback 1 Returns)),
             Call (SetResult 0 (PyInt 1)), GetResult 0 [], Call (IsDone 0)] new_store
     = Some (step (IsDone 0) (step (SetResult 0 (PyInt 1))
              (step (AddCallback 0 (Callback 1 Returns))
                (step (Construct 0 None ''t0'') new_store))))
   \<and> fut_done (futs (step (IsDone 0) (step (SetResult 0 (PyInt 1))
              (step (AddCallback 0 (Callback 1 Returns))
                (step (Construct 0 None ''t0'') new_store)))) 0)
   \<and> get_exception 0 []
         (step (IsDone 0) (step (SetResult 0 (PyInt 1))
              (step (AddCallback 0 (Callback 1 Returns))
                (step (Construct 0 None ''t0'') new_store))))
       = Some (Inl AttributeError, [],
               step (IsDone 0) (step (SetResult 0 (PyInt 1))
                 (step (AddCallback 0 (Callback 1 Returns))
                   (step (Construct 0 None ''t0'') new_store))))"
proof -
  let ?s = "step (SetResult 0 (PyInt 1))
              (step (AddCallback 0 (Callback 1 Returns))
                (step (Construct 0 None ''t0'') new_store))"
  have a: "\<forall>g. fut_returned (futs new_store g) = None"
    by (simp add: new_store_def WMFuture_init_def)
  have d: "fut_done (futs ?s 0)"
    by (simp only: fut_done_payload payload_step) simp
  have d': "fut_done (futs (step (IsDone 0) ?s) 0)"
    by (simp only: fut_done_payload payload_step) simp
  have b: "exec_all [Call (Construct 0 None ''t0''), Call (AddCallback 0 (Callback 1 Returns)),
             Call (SetResult 0 (PyInt 1)), GetResult 0 [], Call (IsDone 0)] new_store
     = Some (step (IsDone 0) ?s)"
    by (simp only: exec_all.simps exec.simps option.case get_result_done [OF d] prod.case)
  from C9_returned_never_assigned [OF a b, of None "''u''" 0 "[]"] b d' show ?thesis
    by (simp only: simp_thms)
qed

section \<open>The acquisition scope when the block raises\<close>

text \<open>
  Claim C5 does not hold of the code. With futures 0 and 1 unlocked, a block that raises
  leaves \<open>all_acquired\<close> with both locks still held once; a block that returns leaves
  them released.
\<close>

theorem C5_guards_left_held:
  "fst (all_acquired [0, 1] (\<lambda>s. (Inl (UserExc (PyExc True True ''boom'')) :: err + unit, s)) new_store)
     = Inl (UserExc (PyExc True True ''boom''))
   \<and> condition (futs (snd (all_acquired [0, 1]
         (\<lambda>s. (Inl (UserExc (PyExc True True ''boom'')) :: err + unit, s)) new_store)) 0) = 1
   \<and> condition (futs (snd (all_acquired [0, 1]
         (\<lambda>s. (Inl (UserExc (PyExc True True ''boom'')) :: err + unit, s)) new_store)) 1) = 1
   \<and> condition (futs new_store 0) = 0
   \<and> condition (futs new_store 1) = 0
   \<and> condition (futs (snd (all_acquired [0, 1] (\<lambda>s. (Inr (), s)) new_store)) 0) = 0
   \<and> condition (futs (snd (all_acquired [0, 1] (\<lambda>s. (Inr (), s)) new_store)) 1) = 0"
  by (simp add: all_acquired_def acquire_def release_def new_store_def WMFuture_init_def)

section \<open>A watcher and its threshold\<close>

lemma watcher_ok_signalled: "watcher_ok wt \<Longrightarrow> watcher_ok (signalled f wt)"
  by (auto simp: watcher_ok_def signalled_def Let_def)

lemma watcher_ok_reset: "watcher_ok wt \<Longrightarrow> watcher_ok (wt\<lparr>event := False, completed := []\<rparr>)"
  by (auto simp: watcher_ok_def)

lemma watcher_ok_settle:
  "watcher_ok (wats st w) \<Longrightarrow> watcher_ok (wats (snd (settle f h st)) w)"
  by (simp add: wats_settle watcher_ok_signalled)

lemma watcher_ok_step: "watcher_ok (wats st w) \<Longrightarrow> watcher_ok (wats (step x st) w)"
proof (cases x)
  case (SetResult f v)
  assume "watcher_ok (wats st w)"
  then show ?thesis by (simp add: SetResult set_result_eq watcher_ok_settle)
next
  case (SetException f e)
  assume "watcher_ok (wats st w)"
  then show ?thesis by (simp add: SetException set_exception_eq watcher_ok_settle)
next
  case (AddWatcher f v)
  assume "watcher_ok (wats st w)"
  then show ?thesis by (auto simp: AddWatcher add_watcher_eq wats_signal watcher_ok_signalled)
next
  case (AddCallback f c)
  assume "watcher_ok (wats st w)"
  then show ?thesis by (simp add: AddCallback add_callback_eq)
next
  case (Reset v)
  assume "watcher_ok (wats st w)"
  then show ?thesis by (auto simp: Reset reset_def watcher_ok_reset)
qed simp_all

lemma watcher_ok_run: "watcher_ok (wats st w) \<Longrightarrow> watcher_ok (wats (run xs st) w)"
  by (induction xs arbitrary: st) (simp_all add: watcher_ok_step)

lemma threshold_step: "threshold (wats (step x st) w) = threshold (wats st w)"
  by (cases x) (simp_all add: set_result_eq set_exception_eq wats_settle add_watcher_eq
      wats_signal add_callback_eq reset_def)

lemma threshold_run: "threshold (wats (run xs st) w) = threshold (wats st w)"
  by (induction xs arbitrary: st) (simp_all add: threshold_step)

lemma FutureWatcher_init_run:
  "FutureWatcher_init w S t st =
     run (map (\<lambda>f. AddWatcher f w) S)
       (upd_wat w (\<lambda>_. \<lparr>event = False, threshold = t, completed = []\<rparr>) st)"
proof -
  have "fold (\<lambda>f s. snd (add_watcher f w s)) S s0 = run (map (\<lambda>f. AddWatcher f w) S) s0" for s0
    by (induction S arbitrary: s0) simp_all
  then show ?thesis by (simp add: FutureWatcher_init_def)
qed

lemma watcher_ok_init:
  "1 \<le> t \<Longrightarrow> watcher_ok (wats (FutureWatcher_init w S t st) w)"
  by (simp only: FutureWatcher_init_run) (rule watcher_ok_run, simp add: watcher_ok_def)

lemma threshold_init: "threshold (wats (FutureWatcher_init w S t st) w) = t"
  by (simp add: FutureWatcher_init_run threshold_run)

lemma all_contained_settle:
  "all_contained st \<Longrightarrow> (\<And>r. update_callbacks (h r) = update_callbacks r) \<Longrightarrow>
   all_contained (snd (settle f h st))"
  by (simp add: all_contained_def futs_settle)

lemma all_contained_completes: "all_contained st \<Longrightarrow> completes x \<Longrightarrow> all_contained (step x st)"
  by (cases x) (simp_all add: set_result_eq set_exception_eq all_contained_settle)

lemma all_contained_add_watcher: "all_contained st \<Longrightarrow> all_contained (snd (add_watcher f w st))"
  by (simp add: add_watcher_eq all_contained_def)

lemma watching_settle:
  assumes w: "watching w A st" and c: "all_contained st"
    and h: "\<And>r. fut_done (h r)" "\<And>r. fut_watchers (h r) = fut_watchers r"
  shows "watching w A (snd (settle f h st))"
proof -
  from c have esc: "cb_escapes (update_callbacks (futs st f)) = None"
    by (simp add: cb_escapes_contained all_contained_def)
  show ?thesis
  proof (cases "w \<in> set (fut_watchers (futs st f))")
    case True
    with w have fA: "f \<in> A" "\<not> fut_done (futs st f)" by (auto simp: watching_def)
    with w have "f \<notin> set (completed (wats st w))" by (auto simp: watching_def)
    with w True fA show ?thesis
      by (auto simp: watching_def futs_settle wats_settle esc h)
  next
    case False
    with w have "f \<notin> A \<or> fut_done (futs st f)" by (auto simp: watching_def)
    with w False show ?thesis
      by (auto simp: watching_def futs_settle wats_settle esc h)
  qed
qed

lemma watching_completes:
  "watching w A st \<Longrightarrow> all_contained st \<Longrightarrow> completes x \<Longrightarrow> watching w A (step x st)"
  by (cases x) (simp_all add: set_result_eq set_exception_eq watching_settle)

lemma watching_run:
  "watching w A st \<Longrightarrow> all_contained st \<Longrightarrow> \<forall>x\<in>set xs. completes x \<Longrightarrow>
   watching w A (run xs st) \<and> all_contained (run xs st)"
  by (induction xs arbitrary: st) (simp_all add: watching_completes all_contained_completes)

lemma watching_add_watcher:
  assumes "watching w A st" "f \<notin> A"
  shows "watching w (insert f A) (snd (add_watcher f w st))"
proof (cases "fut_done (futs st f)")
  case True
  from assms have "f \<notin> set (completed (wats st w))" by (auto simp: watching_def)
  with assms True show ?thesis
    by (auto simp: watching_def add_watcher_eq wats_signal)
next
  case False
  with assms show ?thesis
    by (auto simp: watching_def add_watcher_eq)
qed

lemma watching_adds:
  "watching w A st \<Longrightarrow> all_contained st \<Longrightarrow> distinct S \<Longrightarrow> set S \<inter> A = {} \<Longrightarrow>
   watching w (A \<union> set S) (fold (\<lambda>f s. snd (add_watcher f w s)) S st)
   \<and> all_contained (fold (\<lambda>f s. snd (add_watcher f w s)) S st)"
proof (induction S arbitrary: A st)
  case Nil
  then show ?case by simp
next
  case (Cons f S)
  from Cons.prems have 1: "watching w (insert f A) (snd (add_watcher f w st))"
    by (intro watching_add_watcher) auto
  from Cons.prems have 2: "all_contained (snd (add_watcher f w st))"
    by (simp add: all_contained_add_watcher)
  from Cons.prems have 3: "distinct S" "set S \<inter> insert f A = {}" by auto
  from Cons.IH [OF 1 2 3] show ?case by simp
qed

lemma watching_init:
  assumes "distinct S" "\<forall>f. w \<notin> set (fut_watchers (futs st f))" "all_contained st"
  shows "watching w (set S) (FutureWatcher_init w S t st)
       \<and> all_contained (FutureWatcher_init w S t st)"
proof -
  let ?s0 = "upd_wat w (\<lambda>_. \<lparr>event = False, threshold = t, completed = []\<rparr>) st"
  from assms(2) have a: "watching w {} ?s0" by (simp add: watching_def)
  from assms(3) have b: "all_contained ?s0" by (simp add: all_contained_def)
  from watching_adds [OF a b assms(1)] show ?thesis by (simp add: FutureWatcher_init_def)
qed

lemma example_watcher:
  "wats (FutureWatcher_init 5 [0, 1, 2] 2 new_store) 5
     = \<lparr>event = False, threshold = 2, completed = []\<rparr>"
  "completed (wats (run [SetResult 1 (PyInt 1)] (FutureWatcher_init 5 [0, 1, 2] 2 new_store)) 5)
     = [1]"
  "completed (wats (run [SetResult 1 (PyInt 1), SetException 0 (PyExc True True ''boom'')]
                     (FutureWatcher_init 5 [0, 1, 2] 2 new_store)) 5) = [1, 0]"
  "completed (wats (run [SetException 0 (PyExc True True ''boom''), SetResult 1 (PyInt 1)]
                     (FutureWatcher_init 5 [0, 1, 2] 2 new_store)) 5) = [0, 1]"
  by (simp_all add: FutureWatcher_init_def add_watcher_eq set_result_eq set_exception_eq
      new_store_def WMFuture_init_def futs_settle wats_settle)



section \<open>Waiting for all\<close>

lemma target_Some:
  "target x = Some g \<Longrightarrow> notifies f x = (f = g) \<and> touches f x = (f = g) \<and> completes x"
  by (cases x) auto

lemma once_append: "once (xs @ ys) st \<longleftrightarrow> once xs st \<and> once ys (run xs st)"
  by (induction xs arbitrary: st) (auto split: option.splits)

lemma once_stable:
  "once xs st \<Longrightarrow> fut_done (futs st f) \<Longrightarrow> payload (futs (run xs st) f) = payload (futs st f)"
proof (induction xs arbitrary: st)
  case Nil
  then show ?case by simp
next
  case (Cons x xs)
  from Cons.prems obtain g where g: "target x = Some g" "\<not> fut_done (futs st g)"
    and o: "once xs (step x st)"
    by (auto split: option.splits)
  from g Cons.prems(2) have "g \<noteq> f" by auto
  with g have nt: "\<not> touches f x" by (simp add: target_Some)
  then have p: "payload (futs (step x st) f) = payload (futs st f)"
    by (simp add: payload_step pay_untouched)
  with Cons.prems(2) have "fut_done (futs (step x st) f)" by (simp add: fut_done_payload)
  from Cons.IH [OF o this] p show ?case by simp
qed

lemma once_touches: "once xs st \<Longrightarrow> x \<in> set xs \<Longrightarrow> touches f x = notifies f x"
proof (induction xs arbitrary: st)
  case Nil
  then show ?case by simp
next
  case (Cons y ys)
  from Cons.prems(1) obtain g where g: "target y = Some g" and o: "once ys (step y st)"
    by (auto split: option.splits)
  show ?case
  proof (cases "x = y")
    case True
    with g show ?thesis by (simp add: target_Some)
  next
    case False
    with Cons.prems(2) have "x \<in> set ys" by simp
    from Cons.IH [OF o this] show ?thesis .
  qed
qed

lemma done_after_notify: "notifies f x \<Longrightarrow> fut_done (futs (step x st) f)"
  using payload_step [of x st f] by (cases x) (simp_all add: fut_done_payload)

lemma get_result_once:
  assumes o: "once sched st" and g: "get_result f sched st = Some (r, sched1, st1)"
  shows "\<exists>pre. sched = pre @ sched1 \<and> st1 = run pre st \<and> fut_done (futs st1 f)
               \<and> r = resolve (futs st1 f)"
proof (cases "fut_done (futs st f)")
  case True
  with g have e: "r = resolve (futs st f)" "sched1 = sched" "st1 = st"
    by (auto simp: get_result_done)
  show ?thesis unfolding e using True by (intro exI [of _ "[]"]) simp
next
  case False
  have "\<exists>x\<in>set sched. notifies f x"
  proof (rule ccontr)
    assume "\<not> (\<exists>x\<in>set sched. notifies f x)"
    then have "get_result f sched st = None" by (intro get_result_asleep False) simp
    with g show False by simp
  qed
  then obtain pre x post where sp: "sched = pre @ x # post" and x: "notifies f x"
    and pre: "\<forall>y\<in>set pre. \<not> notifies f y"
    by (auto dest!: split_list_first_prop)
  from o sp pre have pre': "\<forall>y\<in>set pre. \<not> touches f y"
    by (auto simp: once_touches [OF o])
  from get_result_woken [OF False pre' x, of post] g sp
  have "r = resolve (futs (step x (run pre st)) f)" "sched1 = post" "st1 = step x (run pre st)"
    by auto
  with sp x show ?thesis
    by (intro exI [of _ "pre @ [x]"]) (simp add: done_after_notify)
qed

lemma get_result_once_total:
  assumes o: "once sched st" and d: "fut_done (futs (run sched st) f)"
  shows "\<exists>r sched1 st1. get_result f sched st = Some (r, sched1, st1)"
proof (cases "fut_done (futs st f)")
  case True
  then show ?thesis by (simp add: get_result_done)
next
  case False
  have "\<exists>x\<in>set sched. touches f x"
  proof (rule ccontr)
    assume "\<not> (\<exists>x\<in>set sched. touches f x)"
    then have "payload (futs (run sched st) f) = payload (futs st f)"
      by (simp add: payload_run pays_untouched)
    with d False show False by (simp add: fut_done_payload)
  qed
  then have "\<exists>x\<in>set sched. notifies f x" by (auto simp: once_touches [OF o])
  then obtain pre x post where sp: "sched = pre @ x # post" and x: "notifies f x"
    and pre: "\<forall>y\<in>set pre. \<not> notifies f y"
    by (auto dest!: split_list_first_prop)
  from o sp pre have pre': "\<forall>y\<in>set pre. \<not> touches f y"
    by (auto simp: once_touches [OF o])
  from get_result_woken [OF False pre' x, of post] sp show ?thesis by simp
qed


lemma resolve_raises:
  "resolve r = (if raises r then Inl (UserExc (the (fut_exception r))) else Inr (fut_result r))"
  by (simp add: resolve_def raises_def split: option.splits)

lemma wait_all_from_once:
  assumes "once sched st" and "wait_all_from fs results sched st = Some (Inr rs, sched', st')"
  shows "\<exists>pre. sched = pre @ sched' \<and> st' = run pre st
             \<and> (\<forall>f\<in>set fs. fut_done (futs st' f))
             \<and> rs = results @ map (\<lambda>f. fut_result (futs st' f)) fs"
  using assms
proof (induction fs arbitrary: results sched st)
  case Nil
  then show ?case by (intro exI [of _ "[]"]) auto
next
  case (Cons f fs)
  from Cons.prems(2) obtain v sched1 st1 where
    g: "get_result f sched st = Some (Inr v, sched1, st1)"
    and w: "wait_all_from fs (results @ [v]) sched1 st1 = Some (Inr rs, sched', st')"
    by (auto split: option.splits sum.splits)
  from get_result_once [OF Cons.prems(1) g] obtain pre1 where
    p1: "sched = pre1 @ sched1" "st1 = run pre1 st" "fut_done (futs st1 f)"
        "Inr v = resolve (futs st1 f)"
    by blast
  from Cons.prems(1) p1 have o1: "once sched1 st1" by (simp add: once_append)
  from Cons.IH [OF o1 w] obtain pre2 where
    p2: "sched1 = pre2 @ sched'" "st' = run pre2 st1" "\<forall>f\<in>set fs. fut_done (futs st' f)"
        "rs = (results @ [v]) @ map (\<lambda>f. fut_result (futs st' f)) fs"
    by blast
  from o1 p2 have "once pre2 st1" by (simp add: once_append)
  from once_stable [OF this p1(3)] p2 have pl: "payload (futs st' f) = payload (futs st1 f)"
    by simp
  from p1(4) have "fut_result (futs st1 f) = v"
    by (simp add: resolve_raises split: if_splits)
  with pl p1(3) have "fut_done (futs st' f)" "fut_result (futs st' f) = v"
    by (simp_all add: payload_def)
  with p1 p2 show ?case by (intro exI [of _ "pre1 @ pre2"]) simp
qed

lemma wait_all_from_total:
  assumes "once sched st" and "\<forall>f\<in>set fs. fut_done (futs (run sched st) f)"
  shows "\<exists>sched' st'. wait_all_from fs results sched st =
           Some (case find (\<lambda>f. raises (futs (run sched st) f)) fs of
                   Some f \<Rightarrow> Inl (UserExc (the (fut_exception (futs (run sched st) f))))
                 | None \<Rightarrow> Inr (results @ map (\<lambda>f. fut_result (futs (run sched st) f)) fs),
                 sched', st')"
  using assms
proof (induction fs arbitrary: results sched st)
  case Nil
  then show ?case by simp
next
  case (Cons f fs)
  let ?fin = "run sched st"
  from Cons.prems have "fut_done (futs ?fin f)" by simp
  from get_result_once_total [OF Cons.prems(1) this] obtain r sched1 st1 where
    g: "get_result f sched st = Some (r, sched1, st1)" by blast
  from get_result_once [OF Cons.prems(1) g] obtain pre1 where
    p1: "sched = pre1 @ sched1" "st1 = run pre1 st" "fut_done (futs st1 f)"
        "r = resolve (futs st1 f)"
    by blast
  from Cons.prems(1) p1 have o1: "once sched1 st1" by (simp add: once_append)
  from p1 have fin: "run sched1 st1 = ?fin" by simp
  from once_stable [OF o1 p1(3)] fin have pl: "payload (futs ?fin f) = payload (futs st1 f)"
    by simp
  then have fe: "fut_exception (futs ?fin f) = fut_exception (futs st1 f)"
    and fr: "fut_result (futs ?fin f) = fut_result (futs st1 f)"
    by (simp_all add: payload_def)
  from fe have ra: "raises (futs ?fin f) = raises (futs st1 f)" by (simp add: raises_def)
  show ?case
  proof (cases "raises (futs st1 f)")
    case False
    with p1(4) have r: "r = Inr (fut_result (futs st1 f))" by (simp add: resolve_raises)
    from Cons.prems(2) fin have "\<forall>f\<in>set fs. fut_done (futs (run sched1 st1) f)" by simp
    from Cons.IH [OF o1 this, of "results @ [fut_result (futs st1 f)]"] g r False ra fr fin
    show ?thesis by (simp cong: option.case_cong)
  next
    case True
    with p1(4) have r: "r = Inl (UserExc (the (fut_exception (futs st1 f))))"
      by (simp add: resolve_raises)
    with g True ra fe show ?thesis by simp
  qed
qed

lemma fut_done_settled:
  "fut_done (futs (snd (set_result f v st)) g) = (g = f \<or> fut_done (futs st g))"
  "fut_done (futs (snd (set_exception f e st)) g) = (g = f \<or> fut_done (futs st g))"
  "fut_exception (futs (snd (set_result f v st)) g) = fut_exception (futs st g)"
  "fut_exception (futs (snd (set_exception f e st)) g)
     = (if g = f then Some e else fut_exception (futs st g))"
  "fut_result (futs (snd (set_result f v st)) g)
     = (if g = f then v else fut_result (futs st g))"
  "fut_result (futs (snd (set_exception f e st)) g) = fut_result (futs st g)"
  by (simp_all add: set_result_eq set_exception_eq futs_settle)

text \<open>
  What \<open>wait_all\<close> gives. Let the other threads complete futures, each at most once,
  in any order. When every future of the list is done in the end, \<open>wait_all\<close> returns
  or raises (it does not sleep forever), and what it gives depends on the final payloads
  and the order of the list alone: the exception of the first future of the list that
  holds a truthy one, whichever future was completed first; or, when none holds a truthy
  exception, the stored results in the order of the list. And whenever \<open>wait_all\<close>
  returns a list, every future of the list is done by then and the list holds their
  stored results, in order.
\<close>

lemma wait_all_gives:
  assumes "once sched st"
  shows "((\<forall>f\<in>set fs. fut_done (futs (run sched st) f)) \<longrightarrow>
           (\<exists>sched' st'. wait_all fs sched st =
              Some (case find (\<lambda>f. raises (futs (run sched st) f)) fs of
                      Some f \<Rightarrow> Inl (UserExc (the (fut_exception (futs (run sched st) f))))
                    | None \<Rightarrow> Inr (map (\<lambda>f. fut_result (futs (run sched st) f)) fs),
                    sched', st')))
       \<and> (\<forall>rs sched' st'. wait_all fs sched st = Some (Inr rs, sched', st') \<longrightarrow>
            (\<forall>f\<in>set fs. fut_done (futs st' f)) \<and> rs = map (\<lambda>f. fut_result (futs st' f)) fs)"
proof (intro conjI impI allI)
  assume "\<forall>f\<in>set fs. fut_done (futs (run sched st) f)"
  from wait_all_from_total [OF assms this, of "[]"]
  show "\<exists>sched' st'. wait_all fs sched st =
              Some (case find (\<lambda>f. raises (futs (run sched st) f)) fs of
                      Some f \<Rightarrow> Inl (UserExc (the (fut_exception (futs (run sched st) f))))
                    | None \<Rightarrow> Inr (map (\<lambda>f. fut_result (futs (run sched st) f)) fs),
                    sched', st')"
    by (simp add: wait_all_def cong: option.case_cong)
next
  fix rs sched' st'
  assume w: "wait_all fs sched st = Some (Inr rs, sched', st')"
  then have "wait_all_from fs [] sched st = Some (Inr rs, sched', st')" by (simp add: wait_all_def)
  from wait_all_from_once [OF assms this]
  show "\<forall>f\<in>set fs. fut_done (futs st' f)" and "rs = map (\<lambda>f. fut_result (futs st' f)) fs"
    by auto
qed

lemma wait_all_gives_example:
  "once [SetException 2 (PyExc True True ''late''), SetException 1 (PyExc True True ''boom''),
         SetResult 0 (PyInt 10)] new_store
   \<and> map_option fst
        (wait_all [0, 1, 2]
           [SetException 2 (PyExc True True ''late''), SetException 1 (PyExc True True ''boom''),
            SetResult 0 (PyInt 10)] new_store)
       = Some (Inl (UserExc (PyExc True True ''boom'')))
   \<and> once [SetResult 1 (PyInt 11), SetResult 0 (PyInt 10)] new_store
   \<and> map_option fst (wait_all [0, 1] [SetResult 1 (PyInt 11), SetResult 0 (PyInt 10)] new_store)
       = Some (Inr [PyInt 10, PyInt 11])"
proof -
  let ?a = "[SetException 2 (PyExc True True ''late''), SetException 1 (PyExc True True ''boom''),
             SetResult 0 (PyInt 10)]"
  let ?b = "[SetResult 1 (PyInt 11), SetResult 0 (PyInt 10)]"
  have n: "\<not> fut_done (futs new_store f)" "fut_exception (futs new_store f) = None" for f
    by (simp_all add: new_store_def WMFuture_init_def)
  have oa: "once ?a new_store" by (simp add: fut_done_settled n)
  have ob: "once ?b new_store" by (simp add: fut_done_settled n)
  have da: "\<forall>f\<in>set [0, 1, 2]. fut_done (futs (run ?a new_store) f)"
    by (simp add: fut_done_settled)
  have db: "\<forall>f\<in>set [0, 1]. fut_done (futs (run ?b new_store) f)"
    by (simp add: fut_done_settled)
  from wait_all_gives [OF oa, of "[0, 1, 2]"] da
  have a: "map_option fst (wait_all [0, 1, 2] ?a new_store)
             = Some (Inl (UserExc (PyExc True True ''boom'')))"
    by (auto simp: fut_done_settled n raises_def)
  from wait_all_gives [OF ob, of "[0, 1]"] db
  have b: "map_option fst (wait_all [0, 1] ?b new_store) = Some (Inr [PyInt 10, PyInt 11])"
    by (auto simp: fut_done_settled n raises_def)
  from oa a ob b show ?thesis by (simp only: simp_thms)
qed

text \<open>
  Claim C8 does not hold of the code. When the earliest failed future of the list holds
  an exception that is not truthy, \<open>get_result\<close> returns the stored result of that
  future, \<open>None\<close>, and \<open>wait_all\<close> goes on: it raises the exception of a later
  future, or returns a list with \<open>None\<close> for the failed one.
\<close>

theorem C8_falsy_exception_passed_over:
  "once [SetException 1 (PyExc True True ''boom''), SetException 0 (PyExc True False ''empty'')]
     new_store
   \<and> fut_exception
       (futs (run [SetException 1 (PyExc True True ''boom''),
                   SetException 0 (PyExc True False ''empty'')] new_store) 0)
       = Some (PyExc True False ''empty'')
   \<and> map_option fst
       (wait_all [0, 1]
          [SetException 1 (PyExc True True ''boom''), SetException 0 (PyExc True False ''empty'')]
          new_store)
       = Some (Inl (UserExc (PyExc True True ''boom'')))
   \<and> map_option fst (wait_all [0] [SetException 0 (PyExc True False ''empty'')] new_store)
       = Some (Inr [PyNone])"
proof -
  let ?a = "[SetException 1 (PyExc True True ''boom''), SetException 0 (PyExc True False ''empty'')]"
  let ?b = "[SetException 0 (PyExc True False ''empty'')]"
  have n: "\<not> fut_done (futs new_store f)" "fut_exception (futs new_store f) = None"
    "fut_result (futs new_store f) = PyNone" for f
    by (simp_all add: new_store_def WMFuture_init_def)
  have oa: "once ?a new_store" by (simp add: fut_done_settled n)
  have ob: "once ?b new_store" by (simp add: fut_done_settled n)
  have e: "fut_exception (futs (run ?a new_store) 0) = Some (PyExc True False ''empty'')"
    by (simp add: fut_done_settled)
  from wait_all_from_total [OF oa, of "[0, 1]" "[]"]
  have a: "map_option fst (wait_all [0, 1] ?a new_store)
             = Some (Inl (UserExc (PyExc True True ''boom'')))"
    by (auto simp: wait_all_def fut_done_settled n raises_def)
  from wait_all_from_total [OF ob, of "[0]" "[]"]
  have b: "map_option fst (wait_all [0] ?b new_store) = Some (Inr [PyNone])"
    by (auto simp: wait_all_def fut_done_settled n raises_def)
  from oa e a b show ?thesis by (simp only: simp_thms)
qed

section \<open>Yielding futures as they complete\<close>

lemma yielded_append [simp]: "yielded (xs @ ys) = yielded xs @ yielded ys"
  by (induction xs rule: yielded.induct) simp_all

lemma yielded_map [simp]: "yielded (map Yielded fs) = fs"
  by (induction fs) simp_all

lemma calm_Cons: "calm (b # bs) \<longleftrightarrow> (\<forall>x\<in>set b. completes x) \<and> calm bs"
  by (simp add: calm_def)

lemma loop_inv_burst:
  assumes "loop_inv w P (b # bs) st"
  shows "loop_inv w P bs (run b st)"
proof -
  from assms have b: "\<forall>x\<in>set b. completes x" and c: "calm bs"
    by (simp_all add: loop_inv_def calm_Cons)
  from assms have "watching w (set P) st" "all_contained st" by (simp_all add: loop_inv_def)
  from watching_run [OF this b] assms c show ?thesis
    by (simp add: loop_inv_def watcher_ok_run threshold_run)
qed

lemma suspend_inv:
  "loop_inv w P sched st \<Longrightarrow> suspend sched st = (sched', st') \<Longrightarrow> loop_inv w P sched' st'"
  by (cases sched) (auto dest: loop_inv_burst)

lemma yield_each_inv:
  "loop_inv w P sched st \<Longrightarrow> yield_each fs sched st = (sched', st') \<Longrightarrow> loop_inv w P sched' st'"
proof (induction fs arbitrary: sched st)
  case Nil
  then show ?case by simp
next
  case (Cons f fs)
  obtain s1 t1 where s: "suspend sched st = (s1, t1)" by (cases "suspend sched st")
  from suspend_inv [OF Cons.prems(1) s] have "loop_inv w P s1 t1" .
  moreover from Cons.prems(2) s have "yield_each fs s1 t1 = (sched', st')" by simp
  ultimately show ?case by (rule Cons.IH)
qed

lemma yield_remove_eq:
  "distinct batch \<Longrightarrow> set batch \<subseteq> set pending \<Longrightarrow>
   yield_remove batch pending sched st =
     (map Yielded batch, Inr (filter (\<lambda>f. f \<notin> set batch) pending), yield_each batch sched st)"
proof (induction batch arbitrary: pending sched st)
  case Nil
  then show ?case by simp
next
  case (Cons f fs)
  obtain s1 t1 where s: "suspend sched st = (s1, t1)" by (cases "suspend sched st")
  from Cons.prems have f: "f \<in> set pending" and d: "distinct fs"
    and sub: "set fs \<subseteq> set (removeAll f pending)"
    by auto
  have flt: "filter (\<lambda>g. g \<notin> set fs) (removeAll f pending)
               = filter (\<lambda>g. g \<notin> set (f # fs)) pending"
    by (induction pending) auto
  from Cons.IH [OF d sub, of s1 t1] f s flt show ?case
    by (simp split: prod.splits)
qed

lemma event_wait_inv:
  assumes "loop_inv w P sched st" "P \<noteq> []"
  shows "\<exists>sched1 st1. event_wait w sched st = Some (sched1, st1)
           \<and> event (wats st1 w) \<and> loop_inv w P sched1 st1"
  using assms
proof (induction sched arbitrary: st)
  case Nil
  from Nil.prems(2) obtain f where f: "f \<in> set P" by (cases P) auto
  with Nil.prems(1) have "fut_done (futs st f)" by (simp add: loop_inv_def)
  with f Nil.prems(1) have "f \<in> set (completed (wats st w))"
    by (simp add: loop_inv_def watching_def)
  then have "1 \<le> int (length (completed (wats st w)))"
    by (cases "completed (wats st w)") auto
  with Nil.prems(1) have "event (wats st w)" by (simp add: loop_inv_def watcher_ok_def)
  with Nil.prems(1) show ?case by simp
next
  case (Cons b bs)
  show ?case
  proof (cases "event (wats st w)")
    case True
    with Cons.prems(1) show ?thesis by simp
  next
    case False
    from loop_inv_burst [OF Cons.prems(1)] have "loop_inv w P bs (run b st)" .
    from Cons.IH [OF this Cons.prems(2)] False show ?thesis by simp
  qed
qed

lemma reset_inv:
  assumes inv: "loop_inv w P sched st" and ev: "event (wats st w)"
  shows "completed (wats st w) \<noteq> [] \<and> distinct (completed (wats st w))
       \<and> set (completed (wats st w)) \<subseteq> set P
       \<and> loop_inv w (filter (\<lambda>f. f \<notin> set (completed (wats st w))) P) sched (snd (reset w st))"
proof -
  let ?batch = "completed (wats st w)"
  let ?st2 = "snd (reset w st)"
  from inv ev have ne: "?batch \<noteq> []" by (auto simp: loop_inv_def watcher_ok_def)
  from inv have d: "distinct ?batch" and s: "set ?batch = {f \<in> set P. fut_done (futs st f)}"
    and ws: "\<forall>f. w \<in> set (fut_watchers (futs st f)) \<longleftrightarrow> f \<in> set P \<and> \<not> fut_done (futs st f)"
    by (simp_all add: loop_inv_def watching_def)
  have futs2: "futs ?st2 = futs st" by simp
  have wat2: "wats ?st2 w = (wats st w)\<lparr>event := False, completed := []\<rparr>"
    by (simp add: reset_def)
  have w2: "watching w (set (filter (\<lambda>f. f \<notin> set ?batch) P)) ?st2"
    unfolding watching_def futs2 wat2 using ws s by auto
  have pl: "payload (futs (run xs ?st2) f) = payload (futs (run xs st) f)" for xs f
    by (simp add: payload_run)
  from inv have a: "all_contained ?st2" by (simp add: loop_inv_def all_contained_def)
  from inv have ok: "watcher_ok (wats ?st2 w)" "threshold (wats ?st2 w) = 1"
    by (simp_all add: loop_inv_def wat2 watcher_ok_reset)
  from inv have rest: "calm sched" "distinct P"
    "\<forall>f\<in>set P. fut_done (futs (run (concat sched) st) f)"
    by (simp_all add: loop_inv_def)
  from rest(3) have ev2: "\<forall>f\<in>set P. fut_done (futs (run (concat sched) ?st2) f)"
    by (simp add: fut_done_payload pl)
  from w2 a ok rest ev2 have "loop_inv w (filter (\<lambda>f. f \<notin> set ?batch) P) sched ?st2"
    by (simp add: loop_inv_def)
  with ne d s show ?thesis by auto
qed


declare as_completed_loop.simps [simp del]

lemma loop_ok:
  "loop_inv w P sched st \<Longrightarrow>
   \<exists>evs. as_completed_loop w P sched st = (evs, Exhausted)
        \<and> distinct (yielded evs) \<and> set (yielded evs) = set P"
proof (induction "length P" arbitrary: P sched st rule: less_induct)
  case less
  show ?case
  proof (cases "P = []")
    case True
    then show ?thesis by (simp add: as_completed_loop.simps)
  next
    case False
    from event_wait_inv [OF less.prems False] obtain sched1 st1 where
      ew: "event_wait w sched st = Some (sched1, st1)" and ev: "event (wats st1 w)"
      and inv1: "loop_inv w P sched1 st1"
      by blast
    let ?batch = "completed (wats st1 w)"
    let ?P' = "filter (\<lambda>f. f \<notin> set ?batch) P"
    obtain st2 where st2: "st2 = snd (reset w st1)" by simp
    then have rs: "reset w st1 = (?batch, st2)" by (simp add: reset_def)
    from reset_inv [OF inv1 ev] have ne: "?batch \<noteq> []" and d: "distinct ?batch"
      and sub: "set ?batch \<subseteq> set P" and inv2: "loop_inv w ?P' sched1 st2"
      by (simp_all add: st2)
    obtain sched3 st3 where ye: "yield_each ?batch sched1 st2 = (sched3, st3)"
      by (cases "yield_each ?batch sched1 st2")
    from yield_each_inv [OF inv2 ye] have inv3: "loop_inv w ?P' sched3 st3" .
    from ne obtain f where f: "f \<in> set ?batch" by (cases ?batch) auto
    with sub have "f \<in> set P" by auto
    with f have "length ?P' < length P" by (intro length_filter_less) auto
    from less.hyps [OF this inv3] obtain evs' where
      l: "as_completed_loop w ?P' sched3 st3 = (evs', Exhausted)"
      and dy: "distinct (yielded evs')" and sy: "set (yielded evs') = set ?P'"
      by blast
    have "as_completed_loop w P sched st = (Waited # map Yielded ?batch @ evs', Exhausted)"
      by (subst as_completed_loop.simps)
        (simp add: False ew rs yield_remove_eq [OF d sub] ye l)
    moreover have "distinct (yielded (Waited # map Yielded ?batch @ evs'))"
      using d dy sy by auto
    moreover have "set (yielded (Waited # map Yielded ?batch @ evs')) = set P"
      using sy sub by auto
    ultimately show ?thesis by blast
  qed
qed


lemma done_members_eq: "done_members fs st = (filter (\<lambda>f. fut_done (futs st f)) fs, st)"
  by (induction fs) simp_all

lemma wats_fold_lock: "wats (fold (\<lambda>f. upd_fut f (condition_update k)) fs st) = wats st"
  by (induction fs arbitrary: st) simp_all

lemma futs_fold_lock:
  assumes "\<And>r. F (condition_update k r) = F r"
  shows "F (futs (fold (\<lambda>f. upd_fut f (condition_update k)) fs st) g) = F (futs st g)"
  by (induction fs arbitrary: st) (simp_all add: assms)

lemma acquire_fold: "fold acquire fs = fold (\<lambda>f. upd_fut f (condition_update Suc)) fs"
  by (simp add: acquire_alt [abs_def])

lemma release_fold: "fold release fs = fold (\<lambda>f. upd_fut f (condition_update (\<lambda>n. n - 1))) fs"
  by (simp add: release_alt [abs_def])

lemma payload_init [simp]:
  "payload (futs (FutureWatcher_init w S t st) f) = payload (futs st f)"
proof -
  have "fold (\<lambda>x. pay x f) (map (\<lambda>g. AddWatcher g w) S) p = p" for p
    by (induction S) simp_all
  then show ?thesis by (simp add: FutureWatcher_init_run payload_run)
qed

lemma as_completed_eq:
  fixes w fs st
  defines "ready \<equiv> remdups (filter (\<lambda>f. fut_done (futs st f)) fs)"
  defines "P \<equiv> filter (\<lambda>f. f \<notin> set ready) (remdups fs)"
  defines "st1 \<equiv> fold release (remdups fs) (FutureWatcher_init w P 1 (fold acquire (remdups fs) st))"
  shows "as_completed w fs sched st =
           (case yield_each ready sched st1 of
              (sched1, st2) \<Rightarrow>
                (case as_completed_loop w P sched1 st2 of
                   (evs, fin) \<Rightarrow> (map Yielded ready @ evs, fin)))"
proof -
  have d: "fut_done (futs (fold acquire (remdups fs) st) f) = fut_done (futs st f)" for f
    by (simp add: acquire_fold futs_fold_lock)
  show ?thesis
    by (simp add: as_completed_def Let_def all_acquired_def done_members_eq d ready_def P_def
        st1_def)
qed

lemma as_completed_start:
  assumes fresh: "\<forall>f. w \<notin> set (fut_watchers (futs st f))" and cont: "all_contained st"
    and calm: "calm sched"
    and ev: "\<forall>f\<in>set fs. fut_done (futs (run (concat sched) st) f)"
  defines "ready \<equiv> remdups (filter (\<lambda>f. fut_done (futs st f)) fs)"
  defines "P \<equiv> filter (\<lambda>f. f \<notin> set ready) (remdups fs)"
  defines "st1 \<equiv> fold release (remdups fs) (FutureWatcher_init w P 1 (fold acquire (remdups fs) st))"
  shows "loop_inv w P sched st1"
proof -
  let ?s = "fold acquire (remdups fs) st"
  let ?i = "FutureWatcher_init w P 1 ?s"
  have fresh': "\<forall>f. w \<notin> set (fut_watchers (futs ?s f))"
    using fresh by (simp add: acquire_fold futs_fold_lock)
  have cont': "all_contained ?s"
    using cont by (simp add: all_contained_def acquire_fold futs_fold_lock)
  have dP: "distinct P" by (simp add: P_def)
  from watching_init [OF dP fresh' cont', of 1] have wi: "watching w (set P) ?i"
    and ci: "all_contained ?i" by simp_all
  have f1: "F (futs st1 g) = F (futs ?i g)" if "\<And>k r. F (condition_update k r) = F r" for F g
    by (simp add: st1_def release_fold futs_fold_lock that)
  have w1: "wats st1 = wats ?i" by (simp add: st1_def release_fold wats_fold_lock)
  have "watching w (set P) st1"
    using wi unfolding watching_def w1
    by (simp add: f1 [of fut_watchers] f1 [of fut_done])
  moreover have "all_contained st1"
    using ci unfolding all_contained_def by (simp add: f1 [of update_callbacks])
  moreover have "watcher_ok (wats st1 w)" "threshold (wats st1 w) = 1"
    by (simp_all add: w1 watcher_ok_init threshold_init)
  moreover have "payload (futs st1 g) = payload (futs st g)" for g
    by (simp add: f1 [of payload] acquire_fold futs_fold_lock)
  then have "fut_done (futs (run (concat sched) st1) f) = fut_done (futs (run (concat sched) st) f)"
    for f by (simp add: fut_done_payload payload_run)
  with ev have "\<forall>f\<in>set P. fut_done (futs (run (concat sched) st1) f)" by (simp add: P_def)
  ultimately show ?thesis using calm dP by (simp add: loop_inv_def)
qed





end
